theory Spec2Isabelle
  imports Main "HOL-Library.Word"
begin

unbundle bit_operations_syntax

section \<open>Tagged values (include/value.h)\<close>

text \<open>
  A \<open>VALUE\<close> is one 64-bit machine word (\<open>defines.h\<close>, which declares it, is not among
  the sources; the specification fixes the width). The flag byte of \<open>Basic\<close> is a
  \<open>uint8_t\<close>.
\<close>

type_synonym VALUE = "64 word"
type_synonym uint8_t = "8 word"

subsection \<open>The \<open>Basic\<close> header\<close>

definition kFlagType :: uint8_t where "kFlagType = 0x1F"
definition kFlagMark :: uint8_t where "kFlagMark = 0x20"
definition kFlagShortString :: uint8_t where "kFlagShortString = 0x40"

text \<open>
  \<open>enum kValueTypes\<close>. \<open>kTypeInstructionBlock\<close> is used by \<open>gc.cpp\<close> but is not an
  enumerator of this \<open>value.h\<close>; it takes the next free number, which is also its place
  in the specification's list of types.
\<close>

definition kTypeDead :: uint8_t where "kTypeDead = 0"
definition kTypeInteger :: uint8_t where "kTypeInteger = 1"
definition kTypeFloat :: uint8_t where "kTypeFloat = 2"
definition kTypeString :: uint8_t where "kTypeString = 3"
definition kTypeNumeric :: uint8_t where "kTypeNumeric = 4"
definition kTypeBoolean :: uint8_t where "kTypeBoolean = 5"
definition kTypeNull :: uint8_t where "kTypeNull = 6"
definition kTypeObject :: uint8_t where "kTypeObject = 7"
definition kTypeArray :: uint8_t where "kTypeArray = 8"
definition kTypeFunction :: uint8_t where "kTypeFunction = 9"
definition kTypeCFunction :: uint8_t where "kTypeCFunction = 10"
definition kTypeClass :: uint8_t where "kTypeClass = 11"
definition kTypeSymbol :: uint8_t where "kTypeSymbol = 12"
definition kTypeFrame :: uint8_t where "kTypeFrame = 13"
definition kTypeCatchTable :: uint8_t where "kTypeCatchTable = 14"
definition kTypeInstructionBlock :: uint8_t where "kTypeInstructionBlock = 15"

lemmas kType_defs =
  kTypeDead_def kTypeInteger_def kTypeFloat_def kTypeString_def kTypeNumeric_def
  kTypeBoolean_def kTypeNull_def kTypeObject_def kTypeArray_def kTypeFunction_def
  kTypeCFunction_def kTypeClass_def kTypeSymbol_def kTypeFrame_def kTypeCatchTable_def
  kTypeInstructionBlock_def

text \<open>\<open>Basic::type\<close>, \<open>Basic::mark\<close> and \<open>Basic::set_mark\<close>, on the flag byte.\<close>

definition basic_type :: "uint8_t \<Rightarrow> uint8_t" where
  "basic_type flags = flags AND kFlagType"

definition basic_mark :: "uint8_t \<Rightarrow> bool" where
  "basic_mark flags = (flags AND kFlagMark \<noteq> 0)"

text \<open>
  \<open>this->flags ^= (-val ^ this->flags) & kFlagMark\<close>: \<open>-val\<close> is all ones for \<open>true\<close>
  and zero for \<open>false\<close>.
\<close>

definition basic_set_mark :: "bool \<Rightarrow> uint8_t \<Rightarrow> uint8_t" where
  "basic_set_mark val flags =
     flags XOR (((if val then - 1 else 0) XOR flags) AND kFlagMark)"

subsection \<open>Tags of immediate values\<close>

text \<open>
  The masks are \<open>uint8_t\<close> constants in the source; in \<open>value & mask\<close> they are
  promoted to the width of \<open>VALUE\<close>, which is how they are typed here.
\<close>

definition kPointerMask :: VALUE where "kPointerMask = 0b00111"
definition kPointerFlag :: VALUE where "kPointerFlag = 0b00000"
definition kIntegerMask :: VALUE where "kIntegerMask = 0b00001"
definition kIntegerFlag :: VALUE where "kIntegerFlag = 0b00001"
definition kFloatMask :: VALUE where "kFloatMask = 0b00011"
definition kFloatFlag :: VALUE where "kFloatFlag = 0b00010"
definition kSymbolMask :: VALUE where "kSymbolMask = 0b01111"
definition kSymbolFlag :: VALUE where "kSymbolFlag = 0b01100"
definition kFalse :: VALUE where "kFalse = 0b00000"
definition kTrue :: VALUE where "kTrue = 0b10100"
definition kNull :: VALUE where "kNull = 0b01000"

definition is_boolean :: "VALUE \<Rightarrow> bool" where
  "is_boolean value = (value = kFalse \<or> value = kTrue)"

definition is_integer :: "VALUE \<Rightarrow> bool" where
  "is_integer value = (value AND kIntegerMask = kIntegerFlag)"

definition is_ifloat :: "VALUE \<Rightarrow> bool" where
  "is_ifloat value = (value AND kFloatMask = kFloatFlag)"

definition is_symbol :: "VALUE \<Rightarrow> bool" where
  "is_symbol value = (value AND kSymbolMask = kSymbolFlag)"

definition is_false :: "VALUE \<Rightarrow> bool" where
  "is_false value = (value = kFalse)"

definition is_true :: "VALUE \<Rightarrow> bool" where
  "is_true value = (value = kTrue)"

definition is_null :: "VALUE \<Rightarrow> bool" where
  "is_null value = (value = kNull)"

definition is_pointer :: "VALUE \<Rightarrow> bool" where
  "is_pointer value =
     (\<not> is_null value \<and> \<not> is_false value \<and> value AND kPointerMask = kPointerFlag)"

definition is_special :: "VALUE \<Rightarrow> bool" where
  "is_special value = (\<not> is_pointer value)"

subsection \<open>Integer encoding\<close>

text \<open>
  \<open>VALUE_ENCODE_INTEGER\<close> takes an \<open>int64_t\<close>; the cast to \<open>VALUE\<close> keeps the bit
  pattern, so the argument is the 64-bit word itself and \<open>sint\<close> reads its signed value.
  \<open>VALUE_DECODE_INTEGER\<close> shifts the word right as a signed integer, that is
  arithmetically (\<open>signed_drop_bit\<close>).
\<close>

definition VALUE_ENCODE_INTEGER :: "64 word \<Rightarrow> VALUE" where
  "VALUE_ENCODE_INTEGER value = push_bit 1 value OR kIntegerFlag"

definition VALUE_DECODE_INTEGER :: "VALUE \<Rightarrow> 64 word" where
  "VALUE_DECODE_INTEGER value = signed_drop_bit 1 value"

section \<open>Heap cells (include/value.h)\<close>

text \<open>
  A \<open>MemoryCell\<close> is a union of the heap structs; every member starts with the
  \<open>Basic\<close> header. The cell is modelled as the flag byte and the rest of the member
  last written. Containers owned through a C++ pointer (\<open>std::unordered_map\<close>,
  \<open>std::vector\<close>) are modelled by their contents, in iteration order. Pointers
  (\<open>Frame*\<close>, \<open>CatchTable*\<close>, \<open>uint8_t*\<close>) are \<open>VALUE\<close>s, as the casts in
  \<open>gc.cpp\<close> treat them; the null pointer is \<open>0\<close>. The fields, in the order of the
  constructor arguments:
  \<^item> \<open>AsFree\<close>: \<open>next\<close>;
  \<^item> \<open>AsObject\<close>: \<open>klass\<close>, \<open>container\<close>;
  \<^item> \<open>AsArray\<close>: \<open>data\<close>;
  \<^item> \<open>AsString\<close>: the bytes of the short or long buffer;
  \<^item> \<open>AsFloat\<close>: \<open>float_value\<close>, as the IEEE-754 bit pattern;
  \<^item> \<open>AsFunction\<close>: \<open>name\<close>, \<open>argc\<close>, \<open>lvarcount\<close>, \<open>context\<close>, \<open>block\<close>
    (read by \<open>gc.cpp\<close>, not declared in this \<open>value.h\<close>), \<open>body_address\<close>, \<open>anonymous\<close>,
    \<open>bound_self_set\<close>, \<open>bound_self\<close>, \<open>container\<close>;
  \<^item> \<open>AsCFunction\<close>: \<open>name\<close>, \<open>pointer\<close>, \<open>argc\<close>, \<open>bound_self_set\<close>, \<open>bound_self\<close>,
    \<open>container\<close>;
  \<^item> \<open>AsClass\<close>: \<open>name\<close>, \<open>constructor\<close>, \<open>member_properties\<close>, \<open>prototype\<close>,
    \<open>parent_class\<close>, \<open>container\<close>;
  \<^item> \<open>AsFrame\<close>: \<open>parent\<close>, \<open>parent_environment_frame\<close>, \<open>last_active_catchtable\<close>,
    \<open>function\<close>, \<open>environment\<close> (the value of each slot), \<open>self\<close>, \<open>return_address\<close>,
    \<open>halt_after_return\<close>;
  \<^item> \<open>AsCatchTable\<close>: \<open>address\<close>, \<open>stacksize\<close>, \<open>frame\<close>, \<open>parent\<close>;
  \<^item> \<open>AsInstructionBlock\<close>: \<open>child_blocks\<close>.
\<close>

datatype cell_as =
    AsFree VALUE
  | AsObject VALUE "(VALUE \<times> VALUE) list"
  | AsArray "VALUE list"
  | AsString "8 word list"
  | AsFloat "64 word"
  | AsFunction VALUE "32 word" "32 word" VALUE VALUE VALUE bool bool VALUE "(VALUE \<times> VALUE) list"
  | AsCFunction VALUE VALUE "32 word" bool VALUE "(VALUE \<times> VALUE) list"
  | AsClass VALUE VALUE "VALUE list" VALUE VALUE "(VALUE \<times> VALUE) list"
  | AsFrame VALUE VALUE VALUE VALUE "VALUE list" VALUE VALUE bool
  | AsCatchTable VALUE "64 word" VALUE VALUE
  | AsInstructionBlock "VALUE list"

record MemoryCell =
  flags :: uint8_t
  as :: cell_as

text \<open>
  The memory holds a cell at every address; \<open>basics(value)\<close> reads the header of the cell
  at \<open>value\<close>.
\<close>

type_synonym memory = "VALUE \<Rightarrow> MemoryCell"

text \<open>\<open>is_numeric\<close> reads the header of a heap value to recognise a boxed float.\<close>

definition is_numeric :: "memory \<Rightarrow> VALUE \<Rightarrow> bool" where
  "is_numeric m value =
     (if is_integer value then True
      else if is_ifloat value then True
      else if \<not> is_special value \<and> basic_type (flags (m value)) = kTypeFloat then True
      else False)"


section \<open>The memory manager (src/gc.cpp)\<close>

text \<open>
  The constants of \<open>gc.h\<close> (not among the sources) and the allocator of the C library are
  parameters: \<open>calloc env n\<close> is the address of the zeroed block that the call of
  \<open>calloc\<close> returns when \<open>n\<close> regions exist already, and \<open>sizeof_MemoryCell\<close> is the
  distance between two cells of a region.
\<close>

record gc_env =
  kGCInitialHeapCount :: nat
  kGCHeapCellCount :: nat
  kGCHeapCountGrowthFactor :: nat
  sizeof_MemoryCell :: VALUE
  calloc :: "nat \<Rightarrow> VALUE"

text \<open>
  The state of a \<open>MemoryManager\<close>: the head of the free list, the regions, the temporary
  roots (in the order the loop of \<open>collect\<close> visits them) and the memory its cells live in.
\<close>

record MemoryManager =
  free_cell :: VALUE
  heaps :: "VALUE list"
  temporaries :: "VALUE list"
  cells :: memory

text \<open>The fields of the \<open>VM\<close> (include/vm.h) that hold values.\<close>

record VMTask =
  uid :: "64 word"
  fn :: VALUE
  argument :: VALUE

record VM =
  stack :: "VALUE list"
  frames :: VALUE
  catchstack :: VALUE
  top_frame :: VALUE
  last_exception_thrown :: VALUE
  task_queue :: "VMTask list"
  timers :: "(nat \<times> VMTask) list"
  intervals :: "(nat \<times> VMTask \<times> 32 word) list"
  primitive_value :: VALUE
  primitive_object :: VALUE
  primitive_class :: VALUE
  primitive_array :: VALUE
  primitive_string :: VALUE
  primitive_number :: VALUE
  primitive_function :: VALUE
  primitive_generator :: VALUE
  primitive_boolean :: VALUE
  primitive_null :: VALUE

subsection \<open>Regions\<close>

text \<open>\<open>heap + i\<close>: the address of cell \<open>i\<close> of the region at \<open>heap\<close>.\<close>

definition cell_at :: "gc_env \<Rightarrow> VALUE \<Rightarrow> nat \<Rightarrow> VALUE" where
  "cell_at env heap i = heap + of_nat i * sizeof_MemoryCell env"

definition heap_cells :: "gc_env \<Rightarrow> VALUE \<Rightarrow> VALUE list" where
  "heap_cells env heap = map (cell_at env heap) [0..<kGCHeapCellCount env]"

text \<open>
  \<open>add_heap\<close>: the block comes zeroed from \<open>calloc\<close>; the loop threads every cell of it
  onto the free list.
\<close>

definition add_heap_cell :: "VALUE \<Rightarrow> memory \<times> VALUE \<Rightarrow> memory \<times> VALUE" where
  "add_heap_cell cell = (\<lambda>(m, last_cell). (m(cell := \<lparr>flags = 0, as = AsFree last_cell\<rparr>), cell))"

definition add_heap :: "gc_env \<Rightarrow> MemoryManager \<Rightarrow> MemoryManager" where
  "add_heap env mm =
     (let heap = calloc env (length (heaps mm));
          (m, last_cell) = fold add_heap_cell (heap_cells env heap) (cells mm, free_cell mm)
      in mm\<lparr>heaps := heaps mm @ [heap], cells := m, free_cell := last_cell\<rparr>)"

text \<open>
  \<open>grow_heap\<close>: \<open>heaps_to_add\<close> is computed in \<open>size_t\<close>, so the subtraction wraps.
\<close>

definition grow_heap :: "gc_env \<Rightarrow> MemoryManager \<Rightarrow> MemoryManager" where
  "grow_heap env mm =
     (let heap_count = length (heaps mm);
          heaps_to_add = unat ((of_nat heap_count * of_nat (kGCHeapCountGrowthFactor env)
                                - of_nat heap_count) :: 64 word)
      in (add_heap env ^^ heaps_to_add) mm)"


subsection \<open>Temporary roots\<close>

definition register_temporary :: "VALUE \<Rightarrow> MemoryManager \<Rightarrow> MemoryManager" where
  "register_temporary value mm = mm\<lparr>temporaries := value # temporaries mm\<rparr>"

text \<open>
  \<open>find\<close> and \<open>erase\<close> of one occurrence. With no occurrence the \<open>assert\<close> fails where
  assertions are compiled in, and nothing happens where they are not; the model is the
  latter. \<open>free\<close>, the only caller in \<open>gc.cpp\<close>, calls it on a value that occurs once.
\<close>

definition unregister_temporary :: "VALUE \<Rightarrow> MemoryManager \<Rightarrow> MemoryManager" where
  "unregister_temporary value mm = mm\<lparr>temporaries := remove1 value (temporaries mm)\<rparr>"

subsection \<open>Mark\<close>

text \<open>\<open>basics(value)->set_mark(val)\<close> on the cell at \<open>value\<close>.\<close>

definition set_mark :: "VALUE \<Rightarrow> bool \<Rightarrow> memory \<Rightarrow> memory" where
  "set_mark value val m = m(value := (m value)\<lparr>flags := basic_set_mark val (flags (m value))\<rparr>)"

text \<open>
  The values that \<open>mark\<close> passes to its recursive calls for a cell, in the order of the
  calls: the \<open>switch\<close> on the type of the cell. A cell whose type has no \<open>case\<close>, or
  whose contents are not of the type its header names, has none.
\<close>

definition mark_children :: "MemoryCell \<Rightarrow> VALUE list" where
  "mark_children cell =
     (if basic_type (flags cell) = kTypeObject then
        (case as cell of AsObject klass container \<Rightarrow> klass # map snd container | _ \<Rightarrow> [])
      else if basic_type (flags cell) = kTypeArray then
        (case as cell of AsArray data \<Rightarrow> data | _ \<Rightarrow> [])
      else if basic_type (flags cell) = kTypeFunction then
        (case as cell of
           AsFunction name argc lvarcount ctx block body_address anonymous bound_self_set
               bound_self container \<Rightarrow>
             [ctx, block] @ (if bound_self_set then [bound_self] else [])
         | _ \<Rightarrow> [])
      else if basic_type (flags cell) = kTypeCFunction then
        (case as cell of
           AsCFunction name pointer argc bound_self_set bound_self container \<Rightarrow>
             (if bound_self_set then [bound_self] else [])
         | _ \<Rightarrow> [])
      else if basic_type (flags cell) = kTypeFrame then
        (case as cell of
           AsFrame parent parent_environment_frame last_active_catchtable func environment
               self return_address halt_after_return \<Rightarrow>
             [parent, parent_environment_frame, func, self] @ environment
         | _ \<Rightarrow> [])
      else if basic_type (flags cell) = kTypeCatchTable then
        (case as cell of AsCatchTable address stacksize frame parent \<Rightarrow> [frame, parent]
         | _ \<Rightarrow> [])
      else if basic_type (flags cell) = kTypeInstructionBlock then
        (case as cell of AsInstructionBlock child_blocks \<Rightarrow> child_blocks | _ \<Rightarrow> [])
      else [])"

text \<open>
  \<open>MemoryManager::mark\<close> changes nothing of the manager but mark bits, so it is a
  function on the memory. \<open>mark_each\<close> is the loop \<open>for (auto& x : xs) this->mark(x)\<close>.
\<close>

function mark :: "memory \<Rightarrow> VALUE \<Rightarrow> memory"
  and mark_each :: "memory \<Rightarrow> VALUE list \<Rightarrow> memory" where
  "mark m value =
     (if \<not> is_pointer value then m
      else if basic_mark (flags (m value)) then m
      else mark_each (set_mark value True m) (mark_children (set_mark value True m value)))"
| "mark_each m [] = m"
| "mark_each m (value # values) = mark_each (mark m value) values"
  by pat_completeness auto

subsection \<open>Free, sweep, collect\<close>

text \<open>\<open>cell->as.free.next\<close>; only a free cell has the field.\<close>

definition free_next :: "MemoryCell \<Rightarrow> VALUE" where
  "free_next cell = (case as cell of AsFree next_cell \<Rightarrow> next_cell | _ \<Rightarrow> 0)"

text \<open>
  \<open>MemoryManager::free\<close>. The \<open>clean\<close> of the cell's type releases memory outside the
  cells (containers, string buffers), which the model keeps inside the cell, so the
  \<open>switch\<close> leaves no trace; \<open>memset\<close> then zeroes the cell and the cell becomes the
  head of the free list.
\<close>

definition free :: "VALUE \<Rightarrow> MemoryManager \<Rightarrow> MemoryManager" where
  "free cell mm =
     (let mm1 = (if count_list (temporaries mm) cell = 1 then unregister_temporary cell mm
                 else mm)
      in mm1\<lparr>cells := (cells mm1)(cell := \<lparr>flags = 0, as = AsFree (free_cell mm1)\<rparr>),
             free_cell := cell\<rparr>)"

text \<open>The mark phase of \<open>collect\<close>: the four groups of roots, in the order of the source.\<close>

definition mark_phase :: "VM \<Rightarrow> MemoryManager \<Rightarrow> MemoryManager" where
  "mark_phase vm mm =
     mm\<lparr>cells :=
          mark (mark (mark_each (mark_each (cells mm) (stack vm)) (temporaries mm))
                  (frames vm))
            (catchstack vm)\<rparr>"

text \<open>The body of the sweep loop, for one cell.\<close>

definition sweep_cell :: "VALUE \<Rightarrow> MemoryManager \<Rightarrow> MemoryManager" where
  "sweep_cell cell mm =
     (if basic_mark (flags (cells mm cell)) then mm\<lparr>cells := set_mark cell False (cells mm)\<rparr>
      else if basic_type (flags (cells mm cell)) \<noteq> kTypeDead then free cell mm
      else mm)"

definition sweep_phase :: "gc_env \<Rightarrow> MemoryManager \<Rightarrow> MemoryManager" where
  "sweep_phase env mm = fold (\<lambda>heap. fold sweep_cell (heap_cells env heap)) (heaps mm) mm"

definition collect :: "gc_env \<Rightarrow> VM \<Rightarrow> MemoryManager \<Rightarrow> MemoryManager" where
  "collect env vm mm = sweep_phase env (mark_phase vm mm)"

subsection \<open>Allocate\<close>

text \<open>
  \<open>MemoryManager::allocate\<close> returns the cell and the new state. When the free list is
  still empty after \<open>grow_heap\<close> the source prints a message and goes on; it has no other
  branch for that case, and none that ends the program.
\<close>

definition allocate :: "gc_env \<Rightarrow> VM \<Rightarrow> MemoryManager \<Rightarrow> VALUE \<times> MemoryManager" where
  "allocate env vm mm =
     (let cell = free_cell mm in
      if cell \<noteq> 0 then
        (let mm1 = mm\<lparr>free_cell := free_next (cells mm (free_cell mm))\<rparr> in
         if free_cell mm1 = 0 then
           (let mm2 = collect env vm mm1 in
            if free_cell mm2 = 0 then (cell, grow_heap env mm2) else (cell, mm2))
         else (cell, mm1))
      else (cell, mm))"

section \<open>Doubles\<close>

text \<open>
  A \<open>double\<close> is its IEEE-754 binary64 bit pattern: sign, 11 bits of exponent, 52 bits
  of fraction.
\<close>

type_synonym double = "64 word"

definition double_sign :: "double \<Rightarrow> bool" where
  "double_sign d = bit d 63"

definition double_exponent :: "double \<Rightarrow> nat" where
  "double_exponent d = unat (take_bit 11 (drop_bit 52 d))"

definition double_fraction :: "double \<Rightarrow> nat" where
  "double_fraction d = unat (take_bit 52 d)"

definition double_pack :: "bool \<Rightarrow> nat \<Rightarrow> nat \<Rightarrow> double" where
  "double_pack s e f = (if s then push_bit 63 1 else 0) OR push_bit 52 (of_nat e) OR of_nat f"

definition double_is_nan :: "double \<Rightarrow> bool" where
  "double_is_nan d = (double_exponent d = 2047 \<and> double_fraction d \<noteq> 0)"

definition double_is_inf :: "double \<Rightarrow> bool" where
  "double_is_inf d = (double_exponent d = 2047 \<and> double_fraction d = 0)"

text \<open>The macro \<open>NAN\<close> of \<open><cmath>\<close>: the quiet NaN with an empty payload.\<close>

definition NAN :: double where
  "NAN = 0x7FF8000000000000"

text \<open>
  A finite double is \<open>(-1)^sign * double_sig * 2^(double_exp - 1075)\<close>; a subnormal
  one has no hidden bit and the exponent of the smallest normal one.
\<close>

definition double_sig :: "double \<Rightarrow> nat" where
  "double_sig d = (if double_exponent d = 0 then double_fraction d else 2 ^ 52 + double_fraction d)"

definition double_exp :: "double \<Rightarrow> nat" where
  "double_exp d = (if double_exponent d = 0 then 1 else double_exponent d)"

text \<open>The number of binary digits of a natural number.\<close>

fun bit_length :: "nat \<Rightarrow> nat" where
  "bit_length n = (if n = 0 then 0 else Suc (bit_length (n div 2)))"

text \<open>
  \<open>double_round s m e\<close> is the double nearest to \<open>(-1)^s * m * 2^(e - 1075)\<close> for
  \<open>m > 0\<close> and \<open>e \<ge> 1\<close>, ties to the even fraction, infinity past the largest finite
  double: the rounding of the default mode.
\<close>

definition double_round :: "bool \<Rightarrow> nat \<Rightarrow> nat \<Rightarrow> double" where
  "double_round s m e =
     (let k = bit_length m in
      if k \<le> 53 then
        (let sh = min (53 - k) (e - 1); m' = m * 2 ^ sh; e' = e - sh
         in if 2 ^ 52 \<le> m' then double_pack s e' (m' - 2 ^ 52) else double_pack s 0 m')
      else
        (let sh = k - 53; q = m div 2 ^ sh; r = m mod 2 ^ sh; half = 2 ^ (sh - 1);
             q' = (if half < r \<or> (r = half \<and> odd q) then q + 1 else q);
             q'' = (if q' = 2 ^ 53 then 2 ^ 52 else q');
             e'' = (if q' = 2 ^ 53 then e + sh + 1 else e + sh)
         in if 2047 \<le> e'' then double_pack s 2047 0 else double_pack s e'' (q'' - 2 ^ 52)))"

text \<open>The conversion \<open>(double) i\<close> of an \<open>int64_t\<close>.\<close>

definition int64_to_double :: "64 word \<Rightarrow> double" where
  "int64_to_double i =
     (if i = 0 then 0 else double_round (sint i < 0) (nat \<bar>sint i\<bar>) 1075)"

text \<open>
  \<open>a + b\<close> on doubles. Which NaN an operation returns depends on the processor; the model
  returns \<open>NAN\<close>.
\<close>

definition double_add :: "double \<Rightarrow> double \<Rightarrow> double" where
  "double_add a b =
     (if double_is_nan a \<or> double_is_nan b then NAN
      else if double_is_inf a then
        (if double_is_inf b \<and> double_sign a \<noteq> double_sign b then NAN else a)
      else if double_is_inf b then b
      else
        (let e = min (double_exp a) (double_exp b);
             ma = (if double_sign a then - 1 else 1) * int (double_sig a * 2 ^ (double_exp a - e));
             mb = (if double_sign b then - 1 else 1) * int (double_sig b * 2 ^ (double_exp b - e));
             s = ma + mb
         in if s = 0 then double_pack (double_sign a \<and> double_sign b) 0 0
            else double_round (s < 0) (nat \<bar>s\<bar>) e))"

text \<open>\<open>d != 0\<close>: false for the two zeros only.\<close>

definition double_ne_zero :: "double \<Rightarrow> bool" where
  "double_ne_zero d = (double_is_nan d \<or> double_exponent d \<noteq> 0 \<or> double_fraction d \<noteq> 0)"

declare bit_length.simps [simp del]

section \<open>Functions of the machine that the operators call\<close>

text \<open>
  Modelled from the spec: \<open>VM::type\<close> (src/vm.cpp is not among the sources). The
  specification dispatches arithmetic on "both operands numeric (immediate int, immediate
  float, boxed float)", which is \<open>is_numeric\<close>; every other value has the type of its kind.
\<close>

definition VM_type :: "memory \<Rightarrow> VALUE \<Rightarrow> uint8_t" where
  "VM_type m value =
     (if is_numeric m value then kTypeNumeric
      else if is_boolean value then kTypeBoolean
      else if is_null value then kTypeNull
      else if is_symbol value then kTypeSymbol
      else if is_pointer value then basic_type (flags (m value))
      else kTypeDead)"

text \<open>
  Modelled from the spec: \<open>VM::numeric_value\<close> (src/vm.cpp is not among the sources). The
  specification widens a numeric operand to double: an integer is converted, an immediate
  float is the top 62 bits of the value, a boxed float is the double in its cell.
\<close>

definition VM_numeric_value :: "memory \<Rightarrow> VALUE \<Rightarrow> double" where
  "VM_numeric_value m value =
     (if is_integer value then int64_to_double (VALUE_DECODE_INTEGER value)
      else if is_ifloat value then value AND NOT kFloatMask
      else (case as (m value) of AsFloat float_value \<Rightarrow> float_value | _ \<Rightarrow> NAN))"

text \<open>
  Modelled from the spec: \<open>VM::create_float\<close> (src/vm.cpp is not among the sources). The
  specification: "produce an immediate float if representable, else allocate a boxed
  float"; an immediate float keeps the top 62 bits of the double and reserves the low two
  bits for the tag, so a double is representable when its low two bits are zero.
\<close>

definition VM_create_float ::
  "gc_env \<Rightarrow> VM \<Rightarrow> MemoryManager \<Rightarrow> double \<Rightarrow> VALUE \<times> MemoryManager" where
  "VM_create_float env vm mm d =
     (if d AND kFloatMask = 0 then (d OR kFloatFlag, mm)
      else (let (cell, mm') = allocate env vm mm
            in (cell, mm'\<lparr>cells := (cells mm')(cell := \<lparr>flags = kTypeFloat, as = AsFloat d\<rparr>)\<rparr>)))"

section \<open>Operators (src/vm/operators.cpp)\<close>

text \<open>
  \<open>Operators::add\<close> returns the value; \<open>create_float\<close> may allocate, so the state of the
  memory manager is returned with it.
\<close>

definition add ::
  "gc_env \<Rightarrow> VM \<Rightarrow> MemoryManager \<Rightarrow> VALUE \<Rightarrow> VALUE \<Rightarrow> VALUE \<times> MemoryManager" where
  "add env vm mm left right =
     (if VM_type (cells mm) left = kTypeNumeric \<and> VM_type (cells mm) right = kTypeNumeric then
        (let nleft = VM_numeric_value (cells mm) left;
             nright = VM_numeric_value (cells mm) right
         in VM_create_float env vm mm (double_add nleft nright))
      else VM_create_float env vm mm NAN)"

text \<open>\<open>Operators::truthyness\<close>; \<open>is_numeric\<close> reads the memory.\<close>

definition truthyness :: "memory \<Rightarrow> VALUE \<Rightarrow> bool" where
  "truthyness m value =
     (if is_numeric m value then double_ne_zero (VM_numeric_value m value)
      else if is_null value then False
      else if is_false value then False
      else True)"

section \<open>Marked cells, reachability and the free list\<close>

text \<open>The cells whose mark bit is set, and those whose mark bit is clear.\<close>

definition marked :: "memory \<Rightarrow> VALUE set" where
  "marked m = {a. basic_mark (flags (m a))}"

definition unmarked :: "memory \<Rightarrow> VALUE set" where
  "unmarked m = {a. \<not> basic_mark (flags (m a))}"

text \<open>
  The graph that \<open>mark\<close> walks: an edge leads from a cell to every pointer that \<open>mark\<close>
  passes on for it. \<open>reachable m roots\<close> are the cells that a path of such edges reaches
  from a pointer among \<open>roots\<close>.
\<close>

definition edges :: "memory \<Rightarrow> (VALUE \<times> VALUE) set" where
  "edges m = {(a, b). b \<in> set (mark_children (m a)) \<and> is_pointer b}"

definition reachable :: "memory \<Rightarrow> VALUE set \<Rightarrow> VALUE set" where
  "reachable m roots = (edges m)\<^sup>* `` {r \<in> roots. is_pointer r}"

text \<open>The values \<open>collect\<close> calls \<open>mark\<close> on, in the order of the calls.\<close>

definition gc_roots :: "VM \<Rightarrow> MemoryManager \<Rightarrow> VALUE list" where
  "gc_roots vm mm = stack vm @ temporaries mm @ [frames vm, catchstack vm]"

text \<open>All cells of all regions, in the order the sweep visits them.\<close>

definition all_cells :: "gc_env \<Rightarrow> MemoryManager \<Rightarrow> VALUE list" where
  "all_cells env mm = concat (map (heap_cells env) (heaps mm))"

text \<open>
  \<open>free_list_from m p xs\<close>: following \<open>as.free.next\<close> from \<open>p\<close> visits exactly the cells
  \<open>xs\<close>, in this order, and then reaches the null pointer.
\<close>

primrec free_list_from :: "memory \<Rightarrow> VALUE \<Rightarrow> VALUE list \<Rightarrow> bool" where
  "free_list_from m p [] = (p = 0)"
| "free_list_from m p (x # xs) =
     (p = x \<and> p \<noteq> 0 \<and> (case as (m p) of AsFree n \<Rightarrow> free_list_from m n xs | _ \<Rightarrow> False))"

definition on_free_list :: "MemoryManager \<Rightarrow> VALUE \<Rightarrow> bool" where
  "on_free_list mm c = (\<exists>xs. free_list_from (cells mm) (free_cell mm) xs \<and> c \<in> set xs)"

text \<open>
  The state between two collections: the cells of the regions are pairwise distinct and
  none is at the null pointer, no mark bit is set, every cell that the roots reach lies in
  a region, and the free list ends, holding only dead cells that the roots do not reach.
\<close>

definition heap_ok :: "gc_env \<Rightarrow> VM \<Rightarrow> MemoryManager \<Rightarrow> bool" where
  "heap_ok env vm mm =
     (distinct (all_cells env mm) \<and> 0 \<notin> set (all_cells env mm) \<and>
      marked (cells mm) = {} \<and>
      reachable (cells mm) (set (gc_roots vm mm)) \<subseteq> set (all_cells env mm) \<and>
      (\<exists>xs. free_list_from (cells mm) (free_cell mm) xs \<and>
            (\<forall>x\<in>set xs. basic_type (flags (cells mm x)) = kTypeDead \<and>
                         x \<notin> reachable (cells mm) (set (gc_roots vm mm)))))"

text \<open>
  Every value and every cell pointer that a cell holds, by the struct its header names
  (include/value.h): the references of the object graph, whether \<open>mark\<close> follows them or
  not. \<open>referenced m roots\<close> are the cells that a path of references reaches from a
  pointer among \<open>roots\<close>.
\<close>

definition cell_refs :: "MemoryCell \<Rightarrow> VALUE list" where
  "cell_refs cell =
     (if basic_type (flags cell) = kTypeObject then
        (case as cell of AsObject klass container \<Rightarrow> klass # map snd container | _ \<Rightarrow> [])
      else if basic_type (flags cell) = kTypeArray then
        (case as cell of AsArray data \<Rightarrow> data | _ \<Rightarrow> [])
      else if basic_type (flags cell) = kTypeFunction then
        (case as cell of
           AsFunction name argc lvarcount ctx block body_address anonymous bound_self_set
               bound_self container \<Rightarrow>
             [name, ctx, block] @ (if bound_self_set then [bound_self] else [])
               @ map snd container
         | _ \<Rightarrow> [])
      else if basic_type (flags cell) = kTypeCFunction then
        (case as cell of
           AsCFunction name pointer argc bound_self_set bound_self container \<Rightarrow>
             [name] @ (if bound_self_set then [bound_self] else []) @ map snd container
         | _ \<Rightarrow> [])
      else if basic_type (flags cell) = kTypeClass then
        (case as cell of
           AsClass name constructor member_properties prototype parent_class container \<Rightarrow>
             [name, constructor] @ member_properties @ [prototype, parent_class]
               @ map snd container
         | _ \<Rightarrow> [])
      else if basic_type (flags cell) = kTypeFrame then
        (case as cell of
           AsFrame parent parent_environment_frame last_active_catchtable func environment
               self return_address halt_after_return \<Rightarrow>
             [parent, parent_environment_frame, last_active_catchtable, func] @ environment
               @ [self]
         | _ \<Rightarrow> [])
      else if basic_type (flags cell) = kTypeCatchTable then
        (case as cell of AsCatchTable address stacksize frame parent \<Rightarrow> [frame, parent]
         | _ \<Rightarrow> [])
      else if basic_type (flags cell) = kTypeInstructionBlock then
        (case as cell of AsInstructionBlock child_blocks \<Rightarrow> child_blocks | _ \<Rightarrow> [])
      else [])"

definition referenced :: "memory \<Rightarrow> VALUE set \<Rightarrow> VALUE set" where
  "referenced m roots =
     {(a, b). b \<in> set (cell_refs (m a)) \<and> is_pointer b}\<^sup>* `` {r \<in> roots. is_pointer r}"

text \<open>Auxiliary notions of the proofs.\<close>

definition marks_only :: "memory \<Rightarrow> memory \<Rightarrow> bool" where
  "marks_only m m' =
     (\<forall>a. m' a = m a \<or> m' a = (m a)\<lparr>flags := basic_set_mark True (flags (m a))\<rparr>)"

definition mark_post :: "memory \<Rightarrow> VALUE set \<Rightarrow> memory \<Rightarrow> bool" where
  "mark_post m R m' =
     ((\<forall>r\<in>R. is_pointer r \<longrightarrow> r \<in> marked m') \<and>
      (\<forall>a\<in>marked m' - marked m.
         \<forall>b\<in>set (mark_children (m a)). is_pointer b \<longrightarrow> b \<in> marked m') \<and>
      marked m' - marked m \<subseteq> reachable m R)"

definition swept :: "MemoryCell \<Rightarrow> MemoryCell \<Rightarrow> bool" where
  "swept c c' =
     (if basic_mark (flags c) then c' = c\<lparr>flags := basic_set_mark False (flags c)\<rparr>
      else if basic_type (flags c) \<noteq> kTypeDead then flags c' = 0 \<and> (\<exists>n. as c' = AsFree n)
      else c' = c)"

definition to_free :: "memory \<Rightarrow> VALUE \<Rightarrow> bool" where
  "to_free m a = (\<not> basic_mark (flags (m a)) \<and> basic_type (flags (m a)) \<noteq> kTypeDead)"

section \<open>Example states\<close>

text \<open>
  Regions of two cells, 64 bytes apart, at \<open>0x1000\<close>, \<open>0x2000\<close>, ...; the memory starts
  zeroed.
\<close>

definition zeroed :: memory where
  "zeroed = (\<lambda>a. \<lparr>flags = 0, as = AsFree 0\<rparr>)"

definition env_ex :: gc_env where
  "env_ex = \<lparr>kGCInitialHeapCount = 2, kGCHeapCellCount = 2, kGCHeapCountGrowthFactor = 2,
             sizeof_MemoryCell = 0x40, calloc = (\<lambda>n. 0x1000 + 0x1000 * of_nat n)\<rparr>"

text \<open>
  A frame at \<open>0x1000\<close> whose function is the cell at \<open>0x1040\<close>, whose last active catch
  table is the cell at \<open>0x2000\<close> and whose slots hold the integer 5 and null; the function
  has the frame as its context (a cycle) and holds the object at \<open>0x2040\<close> in its container
  under the symbol \<open>0x2C\<close>.
\<close>

definition mem_ex :: memory where
  "mem_ex = zeroed
     (0x1000 := \<lparr>flags = kTypeFrame,
                 as = AsFrame 0 0 0x2000 0x1040 [VALUE_ENCODE_INTEGER 5, kNull] kNull 0 False\<rparr>,
      0x1040 := \<lparr>flags = kTypeFunction,
                 as = AsFunction 0x1C 0 2 0x1000 0 0 False False kNull [(0x2C, 0x2040)]\<rparr>,
      0x2000 := \<lparr>flags = kTypeCatchTable, as = AsCatchTable 0 0 0x1000 0\<rparr>,
      0x2040 := \<lparr>flags = kTypeObject, as = AsObject kNull []\<rparr>)"

definition mm_ex :: MemoryManager where
  "mm_ex = \<lparr>free_cell = 0, heaps = [0x1000, 0x2000], temporaries = [], cells = mem_ex\<rparr>"

text \<open>A machine with nothing but null in its fields.\<close>

definition vm_null :: VM where
  "vm_null = \<lparr>stack = [], frames = 0, catchstack = 0, top_frame = 0,
      last_exception_thrown = kNull, task_queue = [], timers = [], intervals = [],
      primitive_value = kNull, primitive_object = kNull, primitive_class = kNull,
      primitive_array = kNull, primitive_string = kNull, primitive_number = kNull,
      primitive_function = kNull, primitive_generator = kNull, primitive_boolean = kNull,
      primitive_null = kNull\<rparr>"

text \<open>A machine running the frame at \<open>0x1000\<close> under the catch table at \<open>0x2000\<close>.\<close>

definition vm_ex :: VM where
  "vm_ex = vm_null\<lparr>stack := [VALUE_ENCODE_INTEGER 7], frames := 0x1000, catchstack := 0x2000\<rparr>"

text \<open>
  A machine between two tasks: the queue holds a task whose function is the cell at
  \<open>0x1040\<close>, and the primitive class of objects is the cell at \<open>0x2040\<close>.
\<close>

definition vm_task :: VM where
  "vm_task = vm_null\<lparr>task_queue := [\<lparr>uid = 1, fn = 0x1040, argument = kNull\<rparr>],
                       primitive_object := 0x2040\<rparr>"



section \<open>Termination of \<open>mark\<close>\<close>

lemma kFlagMark_bit: "bit kFlagMark n = (n = 5)"
proof -
  have "kFlagMark = 2 ^ 5" by (simp add: kFlagMark_def)
  then have "bit kFlagMark n = bit (2 ^ 5 :: uint8_t) n" by (simp only:)
  also have "\<dots> = (n = 5)" by (simp only: bit_exp_iff possible_bit_word) auto
  finally show ?thesis .
qed

lemma kFlagType_bit: "bit kFlagType n = (n < 5)"
proof -
  have "kFlagType = mask 5" by (simp add: kFlagType_def mask_eq_exp_minus_1)
  then have "bit kFlagType n = bit (mask 5 :: uint8_t) n" by (simp only:)
  also have "\<dots> = (n < 5)" by (simp only: bit_mask_iff possible_bit_word) auto
  finally show ?thesis .
qed

lemma basic_mark_bit: "basic_mark f = bit f 5"
proof -
  have "(f AND kFlagMark = 0) = (\<not> bit f 5)"
  proof
    assume "f AND kFlagMark = 0"
    then have "bit (f AND kFlagMark) 5 = bit (0 :: uint8_t) 5" by simp
    then show "\<not> bit f 5" by (simp add: bit_and_iff kFlagMark_bit)
  next
    assume "\<not> bit f 5"
    then show "f AND kFlagMark = 0"
      by (intro bit_word_eqI) (auto simp add: bit_and_iff kFlagMark_bit)
  qed
  then show ?thesis by (simp add: basic_mark_def)
qed

lemma basic_set_mark_True: "basic_set_mark True f = f OR kFlagMark"
  unfolding basic_set_mark_def
  by (rule bit_word_eqI) (auto simp add: bit_simps)

lemma basic_set_mark_False: "basic_set_mark False f = f AND NOT kFlagMark"
  unfolding basic_set_mark_def
  by (rule bit_word_eqI) (auto simp add: bit_simps)

lemma basic_mark_set_mark [simp]: "basic_mark (basic_set_mark b f) = b"
  by (cases b)
    (simp_all add: basic_set_mark_True basic_set_mark_False basic_mark_bit bit_simps
      kFlagMark_bit)

lemma basic_type_set_mark [simp]: "basic_type (basic_set_mark b f) = basic_type f"
  by (cases b; rule bit_word_eqI)
    (auto simp add: basic_set_mark_True basic_set_mark_False basic_type_def bit_simps
      kFlagMark_bit kFlagType_bit)

lemma unmarked_set_mark: "unmarked (set_mark v True m) = unmarked m - {v}"
  by (auto simp: unmarked_def set_mark_def)

lemma card_unmarked_set_mark:
  "\<not> basic_mark (flags (m v)) \<Longrightarrow> card (unmarked (set_mark v True m)) < card (unmarked m)"
  unfolding unmarked_set_mark by (rule card_Diff1_less) (simp_all add: unmarked_def)

text \<open>
  Partial correctness first, for the nested call: where \<open>mark\<close> returns, it has cleared
  no mark bit.
\<close>

lemma mark_unmarked_subset_dom:
  "mark_mark_each_dom (Inl (m, v)) \<Longrightarrow> unmarked (mark m v) \<subseteq> unmarked m"
  "mark_mark_each_dom (Inr (m, vs)) \<Longrightarrow> unmarked (mark_each m vs) \<subseteq> unmarked m"
proof (induction m v and m vs rule: mark_mark_each.pinduct)
  case (1 m v)
  then show ?case
    by (auto simp: mark.psimps unmarked_set_mark split: if_splits)
next
  case (2 m)
  then show ?case by (simp add: mark_each.psimps)
next
  case (3 m v vs)
  then show ?case by (auto simp: mark_each.psimps)
qed

text \<open>
  Every call of \<open>mark\<close> that goes on marks a cell that was not marked, and the memory has
  finitely many cells: the number of unmarked cells, then the length of the list still to
  visit, decreases along every chain of calls.
\<close>

lemma mark_dom_total: "All mark_mark_each_dom"
proof (relation "inv_image (less_than <*lex*> less_than)
    (\<lambda>x. case x of Inl (m, v) \<Rightarrow> (card (unmarked m), 0)
                 | Inr (m, vs) \<Rightarrow> (card (unmarked m), Suc (length vs)))", goal_cases)
  case 1
  then show ?case by (simp add: wf_lex_prod)
next
  case (2 m v)
  then show ?case by (simp add: card_unmarked_set_mark)
next
  case (3 m v vs)
  then show ?case by simp
next
  case (4 m v vs)
  have "card (unmarked (mark m v)) \<le> card (unmarked m)"
    by (rule card_mono) (use 4 in \<open>auto dest: mark_unmarked_subset_dom(1)\<close>)
  then show ?case by auto
qed

termination mark
  using mark_dom_total by blast

declare mark.simps [simp del]

section \<open>Correctness of \<open>mark\<close> and \<open>collect\<close>\<close>

lemma basic_set_mark_idem [simp]:
  "basic_set_mark b (basic_set_mark b f) = basic_set_mark b f"
  by (cases b; rule bit_word_eqI)
    (auto simp add: basic_set_mark_True basic_set_mark_False bit_simps)

lemma marks_only_refl [simp]: "marks_only m m"
  by (simp add: marks_only_def)

lemma marks_only_trans: "marks_only m m1 \<Longrightarrow> marks_only m1 m2 \<Longrightarrow> marks_only m m2"
  unfolding marks_only_def
proof (intro allI)
  fix a
  assume 1: "\<forall>a. m1 a = m a \<or> m1 a = m a\<lparr>flags := basic_set_mark True (flags (m a))\<rparr>"
    and 2: "\<forall>a. m2 a = m1 a \<or> m2 a = m1 a\<lparr>flags := basic_set_mark True (flags (m1 a))\<rparr>"
  from 1 [rule_format, of a] 2 [rule_format, of a]
  show "m2 a = m a \<or> m2 a = m a\<lparr>flags := basic_set_mark True (flags (m a))\<rparr>"
    by auto
qed

lemma marks_only_set_mark [simp]: "marks_only m (set_mark v True m)"
  by (simp add: marks_only_def set_mark_def)

lemma mark_children_cong:
  assumes "as c' = as c" and "basic_type (flags c') = basic_type (flags c)"
  shows "mark_children c' = mark_children c"
  unfolding mark_children_def by (simp only: assms)

lemma marks_only_children:
  assumes "marks_only m m'"
  shows "mark_children (m' a) = mark_children (m a)"
proof -
  from assms have "m' a = m a \<or> m' a = (m a)\<lparr>flags := basic_set_mark True (flags (m a))\<rparr>"
    by (simp add: marks_only_def)
  then show ?thesis
  proof
    assume "m' a = m a" then show ?thesis by simp
  next
    assume "m' a = (m a)\<lparr>flags := basic_set_mark True (flags (m a))\<rparr>"
    then show ?thesis by (intro mark_children_cong) simp_all
  qed
qed

lemma marks_only_edges: "marks_only m m' \<Longrightarrow> edges m' = edges m"
  by (simp add: edges_def marks_only_children)

lemma marks_only_reachable: "marks_only m m' \<Longrightarrow> reachable m' R = reachable m R"
  by (simp add: reachable_def marks_only_edges)

lemma marks_only_marked:
  assumes "marks_only m m'"
  shows "marked m \<subseteq> marked m'"
proof
  fix a assume a: "a \<in> marked m"
  from assms have "m' a = m a \<or> m' a = (m a)\<lparr>flags := basic_set_mark True (flags (m a))\<rparr>"
    by (simp add: marks_only_def)
  with a show "a \<in> marked m'" by (auto simp: marked_def)
qed

lemma mark_marks_only:
  "marks_only m (mark m v)"
  "marks_only m (mark_each m vs)"
proof (induction m v and m vs rule: mark_mark_each.induct)
  case (1 m v)
  show ?case
  proof (cases "is_pointer v \<and> \<not> basic_mark (flags (m v))")
    case True
    then have "marks_only (set_mark v True m) (mark m v)"
      using 1 by (simp add: mark.simps)
    then show ?thesis by (rule marks_only_trans [OF marks_only_set_mark])
  next
    case False
    then have "mark m v = m" by (auto simp add: mark.simps)
    then show ?thesis by simp
  qed
next
  case (2 m)
  then show ?case by simp
next
  case (3 m v vs)
  from 3 have "marks_only m (mark_each (mark m v) vs)" by (rule marks_only_trans)
  then show ?case by simp
qed

lemma marked_set_mark: "marked (set_mark v True m) = insert v (marked m)"
  by (auto simp: marked_def set_mark_def)

lemma reachable_mono: "R \<subseteq> S \<Longrightarrow> reachable m R \<subseteq> reachable m S"
  unfolding reachable_def by (intro Image_mono) auto

lemma reachable_children:
  assumes "is_pointer v"
  shows "reachable m (set (mark_children (m v))) \<subseteq> reachable m {v}"
proof
  fix a assume "a \<in> reachable m (set (mark_children (m v)))"
  then obtain c where c: "c \<in> set (mark_children (m v))" "is_pointer c" "(c, a) \<in> (edges m)\<^sup>*"
    by (auto simp: reachable_def)
  then have "(v, c) \<in> edges m" by (simp add: edges_def)
  with c have "(v, a) \<in> (edges m)\<^sup>*" by (meson converse_rtrancl_into_rtrancl)
  then show "a \<in> reachable m {v}" using assms by (auto simp: reachable_def)
qed

lemma mark_mark_post:
  "mark_post m {v} (mark m v)"
  "mark_post m (set vs) (mark_each m vs)"
proof (induction m v and m vs rule: mark_mark_each.induct)
  case (1 m v)
  show ?case
  proof (cases "is_pointer v \<and> \<not> basic_mark (flags (m v))")
    case False
    then have "mark m v = m" by (auto simp add: mark.simps)
    then show ?thesis using False by (auto simp: mark_post_def marked_def)
  next
    case True
    let ?m1 = "set_mark v True m"
    let ?cs = "mark_children (?m1 v)"
    let ?m' = "mark_each ?m1 ?cs"
    have eq: "mark m v = ?m'" using True by (simp add: mark.simps)
    have IH: "mark_post ?m1 (set ?cs) ?m'" using 1 True by simp
    have mo1: "marks_only m ?m1" by simp
    have cs: "?cs = mark_children (m v)" using marks_only_children [OF mo1] .
    have ch: "\<And>a. mark_children (?m1 a) = mark_children (m a)"
      using marks_only_children [OF mo1] .
    have sub: "marked ?m1 \<subseteq> marked ?m'" using mark_marks_only(2) marks_only_marked by blast
    have m1: "marked ?m1 = insert v (marked m)" by (rule marked_set_mark)
    have a: "\<forall>r\<in>{v}. is_pointer r \<longrightarrow> r \<in> marked ?m'" using sub m1 by auto
    have b: "\<forall>a\<in>marked ?m' - marked m. \<forall>b\<in>set (mark_children (m a)). is_pointer b \<longrightarrow> b \<in> marked ?m'"
    proof (intro ballI impI)
      fix a b assume a: "a \<in> marked ?m' - marked m" and b: "b \<in> set (mark_children (m a))" "is_pointer b"
      show "b \<in> marked ?m'"
      proof (cases "a = v")
        case True
        with b cs IH show ?thesis by (auto simp: mark_post_def)
      next
        case False
        with a m1 have "a \<in> marked ?m' - marked ?m1" by auto
        with IH b ch show ?thesis unfolding mark_post_def by metis
      qed
    qed
    have c: "marked ?m' - marked m \<subseteq> reachable m {v}"
    proof
      fix a assume a: "a \<in> marked ?m' - marked m"
      show "a \<in> reachable m {v}"
      proof (cases "a = v")
        case True
        then show ?thesis using \<open>is_pointer v \<and> _\<close> by (auto simp: reachable_def)
      next
        case False
        with a m1 have "a \<in> marked ?m' - marked ?m1" by auto
        with IH have "a \<in> reachable ?m1 (set ?cs)" by (auto simp: mark_post_def)
        then have "a \<in> reachable m (set (mark_children (m v)))"
          using marks_only_reachable [OF mo1] cs by simp
        then show ?thesis using reachable_children True by blast
      qed
    qed
    show ?thesis unfolding eq mark_post_def using a b c by blast
  qed
next
  case (2 m)
  then show ?case by (simp add: mark_post_def)
next
  case (3 m v vs)
  let ?m1 = "mark m v"
  let ?m' = "mark_each ?m1 vs"
  have P: "mark_post m {v} ?m1" and Q: "mark_post ?m1 (set vs) ?m'" using 3 by auto
  have mo1: "marks_only m ?m1" by (rule mark_marks_only)
  have ch: "\<And>a. mark_children (?m1 a) = mark_children (m a)"
    using marks_only_children [OF mo1] .
  have sub0: "marked m \<subseteq> marked ?m1" using mo1 marks_only_marked by blast
  have sub: "marked ?m1 \<subseteq> marked ?m'" using mark_marks_only(2) marks_only_marked by blast
  have a: "\<forall>r\<in>set (v # vs). is_pointer r \<longrightarrow> r \<in> marked ?m'"
    using P Q sub by (auto simp: mark_post_def)
  have b: "\<forall>a\<in>marked ?m' - marked m. \<forall>b\<in>set (mark_children (m a)). is_pointer b \<longrightarrow> b \<in> marked ?m'"
  proof (intro ballI impI)
    fix a b assume a: "a \<in> marked ?m' - marked m" and b: "b \<in> set (mark_children (m a))" "is_pointer b"
    show "b \<in> marked ?m'"
    proof (cases "a \<in> marked ?m1")
      case True
      with a have "a \<in> marked ?m1 - marked m" by auto
      with P b have "b \<in> marked ?m1" unfolding mark_post_def by blast
      then show ?thesis using sub by auto
    next
      case False
      with a have "a \<in> marked ?m' - marked ?m1" by auto
      with Q b ch show ?thesis unfolding mark_post_def by metis
    qed
  qed
  have c: "marked ?m' - marked m \<subseteq> reachable m (set (v # vs))"
  proof
    fix a assume a: "a \<in> marked ?m' - marked m"
    show "a \<in> reachable m (set (v # vs))"
    proof (cases "a \<in> marked ?m1")
      case True
      with a P have "a \<in> reachable m {v}" by (auto simp: mark_post_def)
      then show ?thesis using reachable_mono [of "{v}" "set (v # vs)" m] by auto
    next
      case False
      with a Q have "a \<in> reachable ?m1 (set vs)" by (auto simp: mark_post_def)
      then have "a \<in> reachable m (set vs)" using marks_only_reachable [OF mo1] by simp
      then show ?thesis using reachable_mono [of "set vs" "set (v # vs)" m] by auto
    qed
  qed
  show ?case unfolding mark_each.simps mark_post_def using a b c by blast
qed

lemma mark_each_append: "mark_each m (xs @ ys) = mark_each (mark_each m xs) ys"
  by (induction xs arbitrary: m) simp_all

lemma mark_phase_cells: "cells (mark_phase vm mm) = mark_each (cells mm) (gc_roots vm mm)"
  by (simp add: mark_phase_def gc_roots_def mark_each_append)

lemma mark_phase_other [simp]:
  "free_cell (mark_phase vm mm) = free_cell mm"
  "heaps (mark_phase vm mm) = heaps mm"
  "temporaries (mark_phase vm mm) = temporaries mm"
  by (simp_all add: mark_phase_def)

lemma reachable_closed:
  assumes "\<forall>r\<in>R. is_pointer r \<longrightarrow> r \<in> S"
    and "\<forall>a\<in>S. \<forall>b\<in>set (mark_children (m a)). is_pointer b \<longrightarrow> b \<in> S"
  shows "reachable m R \<subseteq> S"
proof
  fix a assume "a \<in> reachable m R"
  then obtain r where r: "r \<in> R" "is_pointer r" and path: "(r, a) \<in> (edges m)\<^sup>*"
    by (auto simp: reachable_def)
  from path show "a \<in> S"
  proof (induction rule: rtrancl_induct)
    case base
    then show ?case using r assms(1) by blast
  next
    case (step y z)
    then show ?case using assms(2) by (auto simp: edges_def)
  qed
qed

lemma mark_each_marked:
  assumes "marked m = {}"
  shows "marked (mark_each m vs) = reachable m (set vs)"
proof
  have post: "mark_post m (set vs) (mark_each m vs)" by (rule mark_mark_post)
  then show "marked (mark_each m vs) \<subseteq> reachable m (set vs)"
    using assms by (auto simp: mark_post_def)
  show "reachable m (set vs) \<subseteq> marked (mark_each m vs)"
    by (rule reachable_closed) (use post assms in \<open>auto simp: mark_post_def\<close>)
qed

lemma mark_each_cells:
  assumes "marked m = {}"
  shows "mark_each m vs a =
     (if a \<in> reachable m (set vs) then (m a)\<lparr>flags := basic_set_mark True (flags (m a))\<rparr>
      else m a)"
proof -
  have "marks_only m (mark_each m vs)" by (rule mark_marks_only)
  then have alt: "mark_each m vs a = m a \<or>
      mark_each m vs a = (m a)\<lparr>flags := basic_set_mark True (flags (m a))\<rparr>"
    by (simp add: marks_only_def)
  have un: "\<not> basic_mark (flags (m a))" using assms by (auto simp: marked_def)
  have iff: "a \<in> reachable m (set vs) \<longleftrightarrow> basic_mark (flags (mark_each m vs a))"
    using mark_each_marked [OF assms, of vs] by (auto simp: marked_def)
  show ?thesis
  proof (cases "a \<in> reachable m (set vs)")
    case True
    with iff alt un show ?thesis by auto
  next
    case False
    with iff alt show ?thesis by auto
  qed
qed

lemma free_list_from_upd:
  "a \<notin> set xs \<Longrightarrow> free_list_from (m(a := c)) p xs = free_list_from m p xs"
  by (induction xs arbitrary: p) (auto split: cell_as.splits)

lemma free_list_from_unique:
  "free_list_from m p xs \<Longrightarrow> free_list_from m p ys \<Longrightarrow> xs = ys"
proof (induction xs arbitrary: p ys)
  case Nil
  then show ?case by (cases ys) auto
next
  case (Cons x xs)
  then show ?case by (cases ys) (auto split: cell_as.splits)
qed

lemma basic_flags_zero [simp]: "\<not> basic_mark 0" "basic_type 0 = kTypeDead"
  by (simp_all add: basic_mark_def basic_type_def kTypeDead_def)

lemma sweep_phase_fold:
  "sweep_phase env mm = fold sweep_cell (all_cells env mm) mm"
proof -
  have "\<And>mm'. fold (\<lambda>heap. fold sweep_cell (heap_cells env heap)) hs mm' =
      fold sweep_cell (concat (map (heap_cells env) hs)) mm'" for hs
    by (induction hs) simp_all
  then show ?thesis by (simp add: sweep_phase_def all_cells_def)
qed

lemma sweep_cell_frame:
  "heaps (sweep_cell c mm) = heaps mm"
  "a \<noteq> c \<Longrightarrow> cells (sweep_cell c mm) a = cells mm a"
  "swept (cells mm c) (cells (sweep_cell c mm) c)"
  "set (temporaries (sweep_cell c mm)) \<subseteq> set (temporaries mm)"
     apply (auto simp add: sweep_cell_def free_def set_mark_def swept_def Let_def unregister_temporary_def)
  by (meson notin_set_remove1)

lemma fold_sweep_cells:
  assumes "distinct cs"
  shows "heaps (fold sweep_cell cs mm) = heaps mm \<and>
         set (temporaries (fold sweep_cell cs mm)) \<subseteq> set (temporaries mm) \<and>
         (\<forall>a. a \<notin> set cs \<longrightarrow> cells (fold sweep_cell cs mm) a = cells mm a) \<and>
         (\<forall>a\<in>set cs. swept (cells mm a) (cells (fold sweep_cell cs mm) a))"
  using assms
proof (induction cs arbitrary: mm)
  case Nil
  then show ?case by simp
next
  case (Cons c cs)
  let ?mm1 = "sweep_cell c mm"
  from Cons have IH: "heaps (fold sweep_cell cs ?mm1) = heaps ?mm1 \<and>
         set (temporaries (fold sweep_cell cs ?mm1)) \<subseteq> set (temporaries ?mm1) \<and>
         (\<forall>a. a \<notin> set cs \<longrightarrow> cells (fold sweep_cell cs ?mm1) a = cells ?mm1 a) \<and>
         (\<forall>a\<in>set cs. swept (cells ?mm1 a) (cells (fold sweep_cell cs ?mm1) a))"
    by simp
  from Cons.prems have c: "c \<notin> set cs" by simp
  have 1: "heaps (fold sweep_cell (c # cs) mm) = heaps mm"
    using IH sweep_cell_frame(1) by simp
  have 2: "set (temporaries (fold sweep_cell (c # cs) mm)) \<subseteq> set (temporaries mm)"
    using IH sweep_cell_frame(4) [of c mm] by auto
  have 3: "\<forall>a. a \<notin> set (c # cs) \<longrightarrow> cells (fold sweep_cell (c # cs) mm) a = cells mm a"
    using IH sweep_cell_frame(2) by simp
  have 4: "\<forall>a\<in>set (c # cs). swept (cells mm a) (cells (fold sweep_cell (c # cs) mm) a)"
  proof
    fix a assume a: "a \<in> set (c # cs)"
    show "swept (cells mm a) (cells (fold sweep_cell (c # cs) mm) a)"
    proof (cases "a = c")
      case True
      then have "cells (fold sweep_cell (c # cs) mm) a = cells ?mm1 c" using IH c by simp
      then show ?thesis using True sweep_cell_frame(3) [of mm c] by simp
    next
      case False
      with a have "a \<in> set cs" by simp
      with IH have "swept (cells ?mm1 a) (cells (fold sweep_cell cs ?mm1) a)" by blast
      then show ?thesis using False sweep_cell_frame(2) [of a c mm] by simp
    qed
  qed
  from 1 2 3 4 show ?case by blast
qed

lemma fold_sweep_free_list:
  assumes "distinct cs" and "0 \<notin> set cs"
    and "free_list_from (cells mm) (free_cell mm) xs"
    and "\<forall>x\<in>set xs. \<not> basic_mark (flags (cells mm x)) \<and> basic_type (flags (cells mm x)) = kTypeDead"
  shows "\<exists>fs. set fs = {c \<in> set cs. to_free (cells mm) c} \<and>
           free_list_from (cells (fold sweep_cell cs mm)) (free_cell (fold sweep_cell cs mm)) (fs @ xs)"
  using assms
proof (induction cs arbitrary: mm xs)
  case Nil
  then show ?case by simp
next
  case (Cons c cs)
  let ?mm1 = "sweep_cell c mm"
  from Cons.prems have c: "c \<notin> set cs" "c \<noteq> 0" "distinct cs" "0 \<notin> set cs" by auto
  have same: "to_free (cells ?mm1) a = to_free (cells mm) a" if "a \<in> set cs" for a
  proof -
    from that c have "a \<noteq> c" by auto
    then have "cells ?mm1 a = cells mm a" by (rule sweep_cell_frame(2))
    then show ?thesis by (simp add: to_free_def)
  qed
  consider (marked) "basic_mark (flags (cells mm c))"
    | (free) "to_free (cells mm) c"
    | (dead) "\<not> basic_mark (flags (cells mm c))" "basic_type (flags (cells mm c)) = kTypeDead"
    by (auto simp: to_free_def)
  then show ?case
  proof cases
    case marked
    then have cx: "c \<notin> set xs" using Cons.prems(4) by auto
    have eq: "?mm1 = mm\<lparr>cells := set_mark c False (cells mm)\<rparr>"
      using marked by (simp add: sweep_cell_def)
    have fl: "free_list_from (cells ?mm1) (free_cell ?mm1) xs"
      using Cons.prems(3) cx by (simp add: eq set_mark_def free_list_from_upd)
    have dead: "\<forall>x\<in>set xs. \<not> basic_mark (flags (cells ?mm1 x)) \<and> basic_type (flags (cells ?mm1 x)) = kTypeDead"
      using Cons.prems(4) cx by (auto simp: eq set_mark_def)
    from Cons.IH [OF c(3,4) fl dead] obtain fs where
      fs: "set fs = {c \<in> set cs. to_free (cells ?mm1) c}"
        "free_list_from (cells (fold sweep_cell cs ?mm1)) (free_cell (fold sweep_cell cs ?mm1)) (fs @ xs)"
      by blast
    have "set fs = {a \<in> set (c # cs). to_free (cells mm) a}"
      using fs(1) same marked by (auto simp: to_free_def)
    then show ?thesis using fs(2) by auto
  next
    case free
    then have cx: "c \<notin> set xs" using Cons.prems(4) by (auto simp: to_free_def)
    have cells1: "cells ?mm1 = (cells mm)(c := \<lparr>flags = 0, as = AsFree (free_cell mm)\<rparr>)"
      and fc1: "free_cell ?mm1 = c"
      using free by (auto simp add: sweep_cell_def to_free_def free_def Let_def unregister_temporary_def)
    have fl: "free_list_from (cells ?mm1) (free_cell ?mm1) (c # xs)"
      using Cons.prems(3) cx c(2) by (simp add: cells1 fc1 free_list_from_upd)
    have dead: "\<forall>x\<in>set (c # xs). \<not> basic_mark (flags (cells ?mm1 x)) \<and> basic_type (flags (cells ?mm1 x)) = kTypeDead"
      using Cons.prems(4) by (auto simp: cells1)
    from Cons.IH [OF c(3,4) fl dead] obtain fs where
      fs: "set fs = {c \<in> set cs. to_free (cells ?mm1) c}"
        "free_list_from (cells (fold sweep_cell cs ?mm1)) (free_cell (fold sweep_cell cs ?mm1)) (fs @ c # xs)"
      by blast
    have "set (fs @ [c]) = {a \<in> set (c # cs). to_free (cells mm) a}"
      using fs(1) same free by auto
    moreover have "free_list_from (cells (fold sweep_cell (c # cs) mm)) (free_cell (fold sweep_cell (c # cs) mm)) ((fs @ [c]) @ xs)"
      using fs(2) by simp
    ultimately show ?thesis by blast
  next
    case dead
    then have eq: "?mm1 = mm" by (simp add: sweep_cell_def)
    from Cons.IH [OF c(3,4) Cons.prems(3,4)] obtain fs where
      fs: "set fs = {c \<in> set cs. to_free (cells mm) c}"
        "free_list_from (cells (fold sweep_cell cs mm)) (free_cell (fold sweep_cell cs mm)) (fs @ xs)"
      by blast
    have "set fs = {a \<in> set (c # cs). to_free (cells mm) a}"
      using fs(1) dead by (auto simp: to_free_def)
    then show ?thesis using fs(2) eq by auto
  qed
qed

lemma basic_set_mark_False_True:
  "\<not> basic_mark f \<Longrightarrow> basic_set_mark False (basic_set_mark True f) = f"
  by (rule bit_word_eqI)
    (auto simp add: basic_set_mark_True basic_set_mark_False bit_simps kFlagMark_bit
      basic_mark_bit)

lemma mark_children_dead: "basic_type (flags c) = kTypeDead \<Longrightarrow> mark_children c = []"
  by (simp add: mark_children_def kType_defs)

lemma reachable_step:
  "a \<in> reachable m R \<Longrightarrow> b \<in> set (mark_children (m a)) \<Longrightarrow> is_pointer b \<Longrightarrow>
   b \<in> reachable m R"
  unfolding reachable_def edges_def
  by (auto intro: rtrancl_into_rtrancl)

lemma free_list_from_cong:
  "\<forall>x\<in>set xs. m' x = m x \<Longrightarrow> free_list_from m' p xs = free_list_from m p xs"
  by (induction xs arbitrary: p) (auto split: cell_as.splits)

lemma all_cells_mark_phase [simp]: "all_cells env (mark_phase vm mm) = all_cells env mm"
  by (simp add: all_cells_def)

text \<open>The memory after a collection, cell by cell.\<close>

lemma collect_cells:
  fixes env :: gc_env and vm :: VM and mm :: MemoryManager
  assumes un: "marked (cells mm) = {}" and di: "distinct (all_cells env mm)"
  defines "R \<equiv> reachable (cells mm) (set (gc_roots vm mm))"
  shows "heaps (collect env vm mm) = heaps mm"
    and "set (temporaries (collect env vm mm)) \<subseteq> set (temporaries mm)"
    and "a \<in> R \<Longrightarrow> a \<in> set (all_cells env mm) \<Longrightarrow> cells (collect env vm mm) a = cells mm a"
    and "a \<in> R \<Longrightarrow> a \<notin> set (all_cells env mm) \<Longrightarrow>
           cells (collect env vm mm) a = (cells mm a)\<lparr>flags := basic_set_mark True (flags (cells mm a))\<rparr>"
    and "a \<notin> R \<Longrightarrow> a \<in> set (all_cells env mm) \<Longrightarrow> basic_type (flags (cells mm a)) \<noteq> kTypeDead \<Longrightarrow>
           flags (cells (collect env vm mm) a) = 0 \<and> (\<exists>n. as (cells (collect env vm mm) a) = AsFree n)"
    and "a \<notin> R \<Longrightarrow> a \<notin> set (all_cells env mm) \<or> basic_type (flags (cells mm a)) = kTypeDead \<Longrightarrow>
           cells (collect env vm mm) a = cells mm a"
proof -
  let ?mm1 = "mark_phase vm mm"
  let ?cs = "all_cells env mm"
  have m1: "cells ?mm1 b = (if b \<in> R then (cells mm b)\<lparr>flags := basic_set_mark True (flags (cells mm b))\<rparr>
      else cells mm b)" for b
    unfolding R_def mark_phase_cells by (rule mark_each_cells [OF un])
  have unm: "\<not> basic_mark (flags (cells mm b))" for b using un by (auto simp: marked_def)
  have col: "collect env vm mm = fold sweep_cell ?cs ?mm1"
    by (simp add: collect_def sweep_phase_fold)
  note sw = fold_sweep_cells [OF di, of ?mm1]
  show "heaps (collect env vm mm) = heaps mm" using sw by (simp add: col)
  show "set (temporaries (collect env vm mm)) \<subseteq> set (temporaries mm)" using sw by (simp add: col)
  have inn: "swept (cells ?mm1 b) (cells (collect env vm mm) b)" if "b \<in> set ?cs" for b
    using sw that by (simp add: col)
  have out: "cells (collect env vm mm) b = cells ?mm1 b" if "b \<notin> set ?cs" for b
    using sw that by (simp add: col)
  show "cells (collect env vm mm) a = cells mm a" if "a \<in> R" "a \<in> set ?cs"
    using inn [OF that(2)] that(1) unm [of a]
    by (simp add: m1 swept_def basic_set_mark_False_True)
  show "cells (collect env vm mm) a = (cells mm a)\<lparr>flags := basic_set_mark True (flags (cells mm a))\<rparr>"
    if "a \<in> R" "a \<notin> set ?cs"
    using out [OF that(2)] that(1) by (simp add: m1)
  show "flags (cells (collect env vm mm) a) = 0 \<and> (\<exists>n. as (cells (collect env vm mm) a) = AsFree n)"
    if "a \<notin> R" "a \<in> set ?cs" "basic_type (flags (cells mm a)) \<noteq> kTypeDead"
    using inn [OF that(2)] that(1,3) unm [of a] by (simp add: m1 swept_def)
  show "cells (collect env vm mm) a = cells mm a"
    if "a \<notin> R" "a \<notin> set ?cs \<or> basic_type (flags (cells mm a)) = kTypeDead"
  proof (cases "a \<in> set ?cs")
    case True
    with that have "basic_type (flags (cells mm a)) = kTypeDead" by simp
    then show ?thesis using inn [OF True] that(1) unm [of a] by (simp add: m1 swept_def)
  next
    case False
    then show ?thesis using out that(1) by (simp add: m1)
  qed
qed

lemma gc_roots_collect:
  assumes "marked (cells mm) = {}" and "distinct (all_cells env mm)"
  shows "set (gc_roots vm (collect env vm mm)) \<subseteq> set (gc_roots vm mm)"
  using collect_cells(2) [OF assms, of vm] by (auto simp: gc_roots_def)

lemma collect_reachable:
  assumes un: "marked (cells mm) = {}" and di: "distinct (all_cells env mm)"
  shows "reachable (cells (collect env vm mm)) (set (gc_roots vm (collect env vm mm)))
           \<subseteq> reachable (cells mm) (set (gc_roots vm mm))"
proof (rule reachable_closed)
  let ?R = "reachable (cells mm) (set (gc_roots vm mm))"
  show "\<forall>r\<in>set (gc_roots vm (collect env vm mm)). is_pointer r \<longrightarrow> r \<in> ?R"
    using gc_roots_collect [OF assms, of vm] by (auto simp: reachable_def)
  show "\<forall>a\<in>?R. \<forall>b\<in>set (mark_children (cells (collect env vm mm) a)). is_pointer b \<longrightarrow> b \<in> ?R"
  proof (intro ballI impI)
    fix a b assume a: "a \<in> ?R" and b: "b \<in> set (mark_children (cells (collect env vm mm) a))" "is_pointer b"
    have "mark_children (cells (collect env vm mm) a) = mark_children (cells mm a)"
    proof (cases "a \<in> set (all_cells env mm)")
      case True
      then show ?thesis using collect_cells(3) [OF un di] a by simp
    next
      case False
      then have "cells (collect env vm mm) a = (cells mm a)\<lparr>flags := basic_set_mark True (flags (cells mm a))\<rparr>"
        using collect_cells(4) [OF un di] a by simp
      then show ?thesis by (intro mark_children_cong) simp_all
    qed
    with b a show "b \<in> ?R" using reachable_step by metis
  qed
qed

lemma collect_free_list:
  assumes un: "marked (cells mm) = {}" and di: "distinct (all_cells env mm)"
    and nz: "0 \<notin> set (all_cells env mm)"
    and fl: "free_list_from (cells mm) (free_cell mm) xs"
    and dead: "\<forall>x\<in>set xs. basic_type (flags (cells mm x)) = kTypeDead \<and>
                x \<notin> reachable (cells mm) (set (gc_roots vm mm))"
  shows "\<exists>fs. free_list_from (cells (collect env vm mm)) (free_cell (collect env vm mm)) (fs @ xs) \<and>
           set fs = {c \<in> set (all_cells env mm). c \<notin> reachable (cells mm) (set (gc_roots vm mm)) \<and>
                       basic_type (flags (cells mm c)) \<noteq> kTypeDead}"
proof -
  let ?R = "reachable (cells mm) (set (gc_roots vm mm))"
  let ?mm1 = "mark_phase vm mm"
  have m1: "cells ?mm1 b = (if b \<in> ?R then (cells mm b)\<lparr>flags := basic_set_mark True (flags (cells mm b))\<rparr>
      else cells mm b)" for b
    unfolding mark_phase_cells by (rule mark_each_cells [OF un])
  have unm: "\<not> basic_mark (flags (cells mm b))" for b using un by (auto simp: marked_def)
  have fl1: "free_list_from (cells ?mm1) (free_cell ?mm1) xs"
    using fl dead free_list_from_cong [of xs "cells ?mm1" "cells mm"] by (simp add: m1)
  have dead1: "\<forall>x\<in>set xs. \<not> basic_mark (flags (cells ?mm1 x)) \<and> basic_type (flags (cells ?mm1 x)) = kTypeDead"
    using dead unm by (simp add: m1)
  have col: "collect env vm mm = fold sweep_cell (all_cells env mm) ?mm1"
    by (simp add: collect_def sweep_phase_fold)
  from fold_sweep_free_list [OF di nz fl1 dead1] obtain fs where
    fs: "set fs = {c \<in> set (all_cells env mm). to_free (cells ?mm1) c}"
      "free_list_from (cells (collect env vm mm)) (free_cell (collect env vm mm)) (fs @ xs)"
    unfolding col by blast
  have "to_free (cells ?mm1) c = (c \<notin> ?R \<and> basic_type (flags (cells mm c)) \<noteq> kTypeDead)" for c
    using unm [of c] by (simp add: to_free_def m1)
  with fs show ?thesis by auto
qed

lemma collect_unmarked:
  assumes un: "marked (cells mm) = {}" and di: "distinct (all_cells env mm)"
    and sub: "reachable (cells mm) (set (gc_roots vm mm)) \<subseteq> set (all_cells env mm)"
  shows "marked (cells (collect env vm mm)) = {}"
proof -
  let ?R = "reachable (cells mm) (set (gc_roots vm mm))"
  have unm: "\<not> basic_mark (flags (cells mm b))" for b using un by (auto simp: marked_def)
  have "\<not> basic_mark (flags (cells (collect env vm mm) a))" for a
  proof (cases "a \<in> ?R")
    case True
    with sub have "a \<in> set (all_cells env mm)" by auto
    then show ?thesis using collect_cells(3) [OF un di] True unm by simp
  next
    case False
    show ?thesis
    proof (cases "a \<in> set (all_cells env mm) \<and> basic_type (flags (cells mm a)) \<noteq> kTypeDead")
      case True
      then show ?thesis using collect_cells(5) [OF un di] False by simp
    next
      case False
      then show ?thesis using collect_cells(6) [OF un di] \<open>a \<notin> ?R\<close> unm by auto
    qed
  qed
  then show ?thesis by (auto simp: marked_def)
qed

lemma collect_heap_ok:
  assumes "heap_ok env vm mm"
  shows "heap_ok env vm (collect env vm mm)"
proof -
  let ?R = "reachable (cells mm) (set (gc_roots vm mm))"
  let ?mm' = "collect env vm mm"
  let ?R' = "reachable (cells ?mm') (set (gc_roots vm ?mm'))"
  from assms obtain xs where
    di: "distinct (all_cells env mm)" and nz: "0 \<notin> set (all_cells env mm)"
    and un: "marked (cells mm) = {}" and sub: "?R \<subseteq> set (all_cells env mm)"
    and fl: "free_list_from (cells mm) (free_cell mm) xs"
    and dead: "\<forall>x\<in>set xs. basic_type (flags (cells mm x)) = kTypeDead \<and> x \<notin> ?R"
    unfolding heap_ok_def by blast
  have ac: "all_cells env ?mm' = all_cells env mm"
    using collect_cells(1) [OF un di] by (simp add: all_cells_def)
  have R': "?R' \<subseteq> ?R" by (rule collect_reachable [OF un di])
  from collect_free_list [OF un di nz fl dead] obtain fs where
    fs: "free_list_from (cells ?mm') (free_cell ?mm') (fs @ xs)"
      "set fs = {c \<in> set (all_cells env mm). c \<notin> ?R \<and> basic_type (flags (cells mm c)) \<noteq> kTypeDead}"
    by blast
  have "basic_type (flags (cells ?mm' x)) = kTypeDead \<and> x \<notin> ?R'" if "x \<in> set (fs @ xs)" for x
  proof (cases "x \<in> set fs")
    case True
    then have "flags (cells ?mm' x) = 0" and "x \<notin> ?R"
      using fs(2) collect_cells(5) [OF un di, of x vm] by auto
    then show ?thesis using R' by auto
  next
    case False
    with that have x: "x \<in> set xs" by simp
    then have "x \<notin> ?R" "basic_type (flags (cells mm x)) = kTypeDead" using dead by auto
    then show ?thesis using collect_cells(6) [OF un di, of x vm] R' by auto
  qed
  then have "\<exists>ys. free_list_from (cells ?mm') (free_cell ?mm') ys \<and>
      (\<forall>x\<in>set ys. basic_type (flags (cells ?mm' x)) = kTypeDead \<and> x \<notin> ?R')"
    using fs(1) by blast
  moreover have "marked (cells ?mm') = {}" by (rule collect_unmarked [OF un di sub])
  moreover have "?R' \<subseteq> set (all_cells env ?mm')" using R' sub ac by auto
  ultimately show ?thesis using di nz ac by (simp add: heap_ok_def)
qed

section \<open>The example states\<close>

lemmas ex_defs = mem_ex_def mm_ex_def vm_ex_def vm_null_def env_ex_def zeroed_def vm_task_def

lemma all_cells_ex: "all_cells env_ex mm_ex = [0x1000, 0x1040, 0x2000, 0x2040]"
  by (simp add: all_cells_def heap_cells_def cell_at_def ex_defs upt_rec)

lemma tag_simps:
  "is_pointer 0x1000" "is_pointer 0x1040" "is_pointer 0x2000" "is_pointer 0x2040"
  "\<not> is_pointer 0" "\<not> is_pointer kNull" "\<not> is_pointer (VALUE_ENCODE_INTEGER 5)"
  "\<not> is_pointer (VALUE_ENCODE_INTEGER 7)"
  by (simp_all add: is_pointer_def is_null_def is_false_def kNull_def kFalse_def
      kPointerMask_def kPointerFlag_def VALUE_ENCODE_INTEGER_def kIntegerFlag_def)

lemma type_simps:
  "basic_type kTypeFrame = kTypeFrame" "basic_type kTypeFunction = kTypeFunction"
  "basic_type kTypeCatchTable = kTypeCatchTable" "basic_type kTypeObject = kTypeObject"
  "\<not> basic_mark kTypeFrame" "\<not> basic_mark kTypeFunction"
  "\<not> basic_mark kTypeCatchTable" "\<not> basic_mark kTypeObject"
  by (simp_all add: basic_type_def basic_mark_def kFlagType_def kFlagMark_def kType_defs)

lemma marked_mem_ex: "marked mem_ex = {}"
  by (auto simp add: marked_def mem_ex_def zeroed_def type_simps)

lemma children_ex:
  "mark_children (mem_ex 0x1000) = [0, 0, 0x1040, kNull, VALUE_ENCODE_INTEGER 5, kNull]"
  "mark_children (mem_ex 0x1040) = [0x1000, 0]"
  "mark_children (mem_ex 0x2000) = [0x1000, 0]"
  "mark_children (mem_ex 0x2040) = [kNull]"
  by (simp_all add: mark_children_def mem_ex_def basic_type_def kFlagType_def kType_defs)

lemma reachable_ex:
  "reachable mem_ex (set (gc_roots vm_ex mm_ex)) = {0x1000, 0x1040, 0x2000}"
proof
  show "reachable mem_ex (set (gc_roots vm_ex mm_ex)) \<subseteq> {0x1000, 0x1040, 0x2000}"
    by (rule reachable_closed)
      (auto simp add: gc_roots_def vm_ex_def vm_null_def mm_ex_def tag_simps children_ex)
  have r: "0x1000 \<in> reachable mem_ex (set (gc_roots vm_ex mm_ex))"
    "0x2000 \<in> reachable mem_ex (set (gc_roots vm_ex mm_ex))"
    by (auto simp add: reachable_def gc_roots_def vm_ex_def vm_null_def mm_ex_def tag_simps)
  have "0x1040 \<in> reachable mem_ex (set (gc_roots vm_ex mm_ex))"
    by (rule reachable_step [OF r(1)]) (simp_all add: children_ex tag_simps)
  with r show "{0x1000, 0x1040, 0x2000} \<subseteq> reachable mem_ex (set (gc_roots vm_ex mm_ex))"
    by simp
qed

lemma heap_ok_ex: "heap_ok env_ex vm_ex mm_ex"
proof -
  have "free_list_from (cells mm_ex) (free_cell mm_ex) []" by (simp add: mm_ex_def)
  then have "\<exists>xs. free_list_from (cells mm_ex) (free_cell mm_ex) xs \<and>
      (\<forall>x\<in>set xs. basic_type (flags (cells mm_ex x)) = kTypeDead \<and>
         x \<notin> reachable (cells mm_ex) (set (gc_roots vm_ex mm_ex)))"
    by (intro exI [of _ "[]"]) simp
  moreover have "cells mm_ex = mem_ex" by (simp add: mm_ex_def)
  ultimately show ?thesis
    unfolding heap_ok_def by (simp add: all_cells_ex marked_mem_ex reachable_ex)
qed

section \<open>The claims about the collector\<close>

text \<open>
  \<^bold>\<open>C7\<close>, for the roots that \<open>collect\<close> marks and the references that \<open>mark\<close> follows.
  A collection that starts in a state \<open>heap_ok\<close> ends in one: no mark bit is set, and the
  free list holds only dead cells that the roots do not reach. Hence no cell is both on
  the free list and reachable from the roots, every cell on the free list has type dead,
  and every cell that the mark phase marked has its mark bit clear again.
\<close>

theorem collect_invariant:
  assumes "heap_ok env vm mm"
  shows "heap_ok env vm (collect env vm mm) \<and>
         (\<forall>c. on_free_list (collect env vm mm) c \<longrightarrow>
              c \<notin> reachable (cells (collect env vm mm)) (set (gc_roots vm (collect env vm mm))) \<and>
              basic_type (flags (cells (collect env vm mm) c)) = kTypeDead) \<and>
         (\<forall>a\<in>marked (cells (mark_phase vm mm)).
              \<not> basic_mark (flags (cells (collect env vm mm) a)))"
proof -
  let ?mm' = "collect env vm mm"
  have ok: "heap_ok env vm ?mm'" using assms by (rule collect_heap_ok)
  then obtain ys where ys: "free_list_from (cells ?mm') (free_cell ?mm') ys"
    "\<forall>x\<in>set ys. basic_type (flags (cells ?mm' x)) = kTypeDead \<and>
        x \<notin> reachable (cells ?mm') (set (gc_roots vm ?mm'))"
    unfolding heap_ok_def by blast
  have "c \<in> set ys" if "on_free_list ?mm' c" for c
    using that ys(1) free_list_from_unique unfolding on_free_list_def by blast
  then have fl: "\<forall>c. on_free_list ?mm' c \<longrightarrow>
      c \<notin> reachable (cells ?mm') (set (gc_roots vm ?mm')) \<and>
      basic_type (flags (cells ?mm' c)) = kTypeDead"
    using ys(2) by blast
  have "marked (cells ?mm') = {}" using ok by (simp add: heap_ok_def)
  then have "\<forall>a\<in>marked (cells (mark_phase vm mm)). \<not> basic_mark (flags (cells ?mm' a))"
    by (auto simp: marked_def)
  with ok fl show ?thesis by blast
qed

text \<open>The example state satisfies \<open>heap_ok\<close>; its collection frees the object at \<open>0x2040\<close>.\<close>

theorem collect_invariant_witness:
  "heap_ok env_ex vm_ex mm_ex \<and> heap_ok env_ex vm_ex (collect env_ex vm_ex mm_ex) \<and>
   on_free_list (collect env_ex vm_ex mm_ex) 0x2040 \<and>
   basic_type (flags (cells (collect env_ex vm_ex mm_ex) 0x2040)) = kTypeDead \<and>
   0x1040 \<in> marked (cells (mark_phase vm_ex mm_ex)) \<and>
   \<not> basic_mark (flags (cells (collect env_ex vm_ex mm_ex) 0x1040))"
proof -
  have fl: "free_list_from (cells (collect env_ex vm_ex mm_ex))
      (free_cell (collect env_ex vm_ex mm_ex)) [0x2040]"
    by code_simp
  have on: "on_free_list (collect env_ex vm_ex mm_ex) 0x2040"
    unfolding on_free_list_def
  proof (intro exI conjI)
    show "free_list_from (cells (collect env_ex vm_ex mm_ex))
      (free_cell (collect env_ex vm_ex mm_ex)) [0x2040]" by (rule fl)
    show "(0x2040 :: VALUE) \<in> set [0x2040]" by simp
  qed
  have m: "0x1040 \<in> marked (cells (mark_phase vm_ex mm_ex))"
    unfolding marked_def by (simp, code_simp)
  from collect_invariant [OF heap_ok_ex] on m heap_ok_ex show ?thesis by blast
qed

lemma referenced_root: "r \<in> roots \<Longrightarrow> is_pointer r \<Longrightarrow> r \<in> referenced m roots"
  by (auto simp: referenced_def)

lemma referenced_step:
  "a \<in> referenced m roots \<Longrightarrow> b \<in> set (cell_refs (m a)) \<Longrightarrow> is_pointer b \<Longrightarrow>
   b \<in> referenced m roots"
  unfolding referenced_def by (auto intro: rtrancl_into_rtrancl)

text \<open>
  \<^bold>\<open>C7\<close> as stated, for the references of the object graph and the roots of the
  specification, fails. In the example state the frame chain reaches the function at
  \<open>0x1040\<close>, whose container holds the object at \<open>0x2040\<close>; \<open>mark\<close> does not follow
  containers of functions, so after the collection the object is on the free list while
  the roots still reach it. And with the function at \<open>0x1040\<close> as the function of a queued
  task, which \<open>collect\<close> does not take as a root, the function itself is on the free list
  after the collection.
\<close>

theorem collect_frees_referenced_cell:
  "0x2040 \<in> referenced (cells (collect env_ex vm_ex mm_ex))
               (set (gc_roots vm_ex (collect env_ex vm_ex mm_ex))) \<and>
   on_free_list (collect env_ex vm_ex mm_ex) 0x2040 \<and>
   fn (hd (task_queue vm_task)) = 0x1040 \<and> is_pointer 0x1040 \<and>
   on_free_list (collect env_ex vm_task mm_ex) 0x1040"
proof -
  let ?mm' = "collect env_ex vm_ex mm_ex"
  have r0: "0x1000 \<in> referenced (cells ?mm') (set (gc_roots vm_ex ?mm'))"
    by (rule referenced_root) (simp_all add: gc_roots_def vm_ex_def tag_simps)
  have "cell_refs (cells ?mm' 0x1000)
      = [0, 0, 0x2000, 0x1040, VALUE_ENCODE_INTEGER 5, kNull, kNull]"
    by code_simp
  then have r1: "0x1040 \<in> referenced (cells ?mm') (set (gc_roots vm_ex ?mm'))"
    by (intro referenced_step [OF r0]) (simp_all add: tag_simps)
  have "cell_refs (cells ?mm' 0x1040) = [0x1C, 0x1000, 0, 0x2040]"
    by code_simp
  then have r2: "0x2040 \<in> referenced (cells ?mm') (set (gc_roots vm_ex ?mm'))"
    by (intro referenced_step [OF r1]) (simp_all add: tag_simps)
  have fl: "free_list_from (cells ?mm') (free_cell ?mm') [0x2040]"
    by code_simp
  have on: "on_free_list ?mm' 0x2040"
    unfolding on_free_list_def
  proof (intro exI conjI)
    show "free_list_from (cells ?mm') (free_cell ?mm') [0x2040]" by (rule fl)
    show "(0x2040 :: VALUE) \<in> set [0x2040]" by simp
  qed
  have t: "fn (hd (task_queue vm_task)) = 0x1040"
    by (simp add: vm_task_def vm_null_def)
  have flt: "free_list_from (cells (collect env_ex vm_task mm_ex))
      (free_cell (collect env_ex vm_task mm_ex)) [0x2040, 0x2000, 0x1040, 0x1000]"
    by code_simp
  have ont: "on_free_list (collect env_ex vm_task mm_ex) 0x1040"
    unfolding on_free_list_def
  proof (intro exI conjI)
    show "free_list_from (cells (collect env_ex vm_task mm_ex))
      (free_cell (collect env_ex vm_task mm_ex)) [0x2040, 0x2000, 0x1040, 0x1000]" by (rule flt)
    show "(0x1040 :: VALUE) \<in> set [0x2040, 0x2000, 0x1040, 0x1000]" by simp
  qed
  from r2 on t ont tag_simps show ?thesis by blast
qed

text \<open>
  \<^bold>\<open>C1\<close>, amended. Started with no mark bit set, the mark phase of \<open>collect\<close> marks exactly
  the cells reachable from the values on the operand stack, the temporary roots, the frame
  chain and the catch-table chain; every cell reachable from one of these survives the
  collection with its contents and its type.
\<close>

theorem collect_marks_roots:
  assumes "marked (cells mm) = {}" and "distinct (all_cells env mm)"
  shows "marked (cells (mark_phase vm mm)) =
           reachable (cells mm) (set (stack vm) \<union> set (temporaries mm) \<union> {frames vm, catchstack vm}) \<and>
         (\<forall>a\<in>reachable (cells mm)
                (set (stack vm) \<union> set (temporaries mm) \<union> {frames vm, catchstack vm}).
            as (cells (collect env vm mm) a) = as (cells mm a) \<and>
            basic_type (flags (cells (collect env vm mm) a)) = basic_type (flags (cells mm a)))"
proof -
  have roots: "set (stack vm) \<union> set (temporaries mm) \<union> {frames vm, catchstack vm}
      = set (gc_roots vm mm)"
    by (auto simp: gc_roots_def)
  have "marked (cells (mark_phase vm mm)) = reachable (cells mm) (set (gc_roots vm mm))"
    unfolding mark_phase_cells by (rule mark_each_marked [OF assms(1)])
  moreover have "as (cells (collect env vm mm) a) = as (cells mm a) \<and>
      basic_type (flags (cells (collect env vm mm) a)) = basic_type (flags (cells mm a))"
    if a: "a \<in> reachable (cells mm) (set (gc_roots vm mm))" for a
  proof (cases "a \<in> set (all_cells env mm)")
    case True
    then show ?thesis using collect_cells(3) [OF assms] a by simp
  next
    case False
    then show ?thesis using collect_cells(4) [OF assms] a by simp
  qed
  ultimately show ?thesis unfolding roots by blast
qed

text \<open>In the example state the roots reach the frame, its function and the catch table.\<close>

theorem collect_marks_roots_witness:
  "marked (cells mm_ex) = {} \<and> distinct (all_cells env_ex mm_ex) \<and>
   marked (cells (mark_phase vm_ex mm_ex)) = {0x1000, 0x1040, 0x2000} \<and>
   as (cells (collect env_ex vm_ex mm_ex) 0x1040) = as (cells mm_ex 0x1040) \<and>
   basic_type (flags (cells (collect env_ex vm_ex mm_ex) 0x1040)) = kTypeFunction"
proof -
  have un: "marked (cells mm_ex) = {}" by (simp add: mm_ex_def marked_mem_ex)
  have di: "distinct (all_cells env_ex mm_ex)" by (simp add: all_cells_ex)
  have roots: "set (stack vm_ex) \<union> set (temporaries mm_ex) \<union> {frames vm_ex, catchstack vm_ex}
      = set (gc_roots vm_ex mm_ex)"
    by (auto simp: gc_roots_def)
  have re: "reachable (cells mm_ex)
      (set (stack vm_ex) \<union> set (temporaries mm_ex) \<union> {frames vm_ex, catchstack vm_ex})
      = {0x1000, 0x1040, 0x2000}"
    unfolding roots using reachable_ex by (simp add: mm_ex_def)
  have ty: "basic_type (flags (cells mm_ex 0x1040)) = kTypeFunction"
    by (simp add: mm_ex_def mem_ex_def type_simps)
  from collect_marks_roots [OF un di, of vm_ex] un di re ty show ?thesis by simp
qed

text \<open>
  \<^bold>\<open>C1\<close> as stated fails: the function of a queued task and a primitive class are not
  roots of \<open>collect\<close>. With the cell at \<open>0x1040\<close> as the function of the only queued task
  and the cell at \<open>0x2040\<close> as the primitive class of objects, the collection frees both
  (and the two other cells, which nothing marks either).
\<close>

theorem collect_frees_queued_task:
  "fn (hd (task_queue vm_task)) = 0x1040 \<and>
   basic_type (flags (cells mm_ex 0x1040)) = kTypeFunction \<and>
   basic_type (flags (cells (collect env_ex vm_task mm_ex) 0x1040)) = kTypeDead \<and>
   primitive_object vm_task = 0x2040 \<and>
   basic_type (flags (cells mm_ex 0x2040)) = kTypeObject \<and>
   basic_type (flags (cells (collect env_ex vm_task mm_ex) 0x2040)) = kTypeDead \<and>
   free_list_from (cells (collect env_ex vm_task mm_ex)) (free_cell (collect env_ex vm_task mm_ex))
     [0x2040, 0x2000, 0x1040, 0x1000]"
proof -
  have 1: "fn (hd (task_queue vm_task)) = 0x1040" "primitive_object vm_task = 0x2040"
    by (simp_all add: vm_task_def vm_null_def)
  have 2: "basic_type (flags (cells mm_ex 0x1040)) = kTypeFunction"
    "basic_type (flags (cells mm_ex 0x2040)) = kTypeObject"
    by (simp_all add: mm_ex_def mem_ex_def type_simps)
  have 3: "basic_type (flags (cells (collect env_ex vm_task mm_ex) 0x1040)) = kTypeDead"
    by code_simp
  have 4: "basic_type (flags (cells (collect env_ex vm_task mm_ex) 0x2040)) = kTypeDead"
    by code_simp
  have 5: "free_list_from (cells (collect env_ex vm_task mm_ex))
     (free_cell (collect env_ex vm_task mm_ex)) [0x2040, 0x2000, 0x1040, 0x1000]"
    by code_simp
  from 1 2 3 4 5 show ?thesis by blast
qed

text \<open>
  \<^bold>\<open>C8\<close>, amended. When \<open>mark\<close> visits an unmarked frame it goes on to the caller frame,
  the lexical parent frame, the owning function, the self value and all local slots, in
  this order, and every pointer among them is marked when it returns. When it visits an
  unmarked function it goes on to the lexical context frame, the instruction block and the
  bound self if it is set, and every pointer among them is marked when it returns.
\<close>

theorem mark_frame_and_function:
  assumes "is_pointer value" and "\<not> basic_mark (flags (m value))"
  shows "(basic_type (flags (m value)) = kTypeFrame \<and>
          as (m value) = AsFrame parent parent_environment_frame last_active_catchtable func
                           environment self return_address halt_after_return \<longrightarrow>
            mark m value = mark_each (set_mark value True m)
              ([parent, parent_environment_frame, func, self] @ environment) \<and>
            (\<forall>v\<in>set ([parent, parent_environment_frame, func, self] @ environment).
                is_pointer v \<longrightarrow> basic_mark (flags (mark m value v)))) \<and>
         (basic_type (flags (m value)) = kTypeFunction \<and>
          as (m value) = AsFunction name argc lvarcount ctx block body_address anonymous
                           bound_self_set bound_self container \<longrightarrow>
            mark m value = mark_each (set_mark value True m)
              ([ctx, block] @ (if bound_self_set then [bound_self] else [])) \<and>
            (\<forall>v\<in>set ([ctx, block] @ (if bound_self_set then [bound_self] else [])).
                is_pointer v \<longrightarrow> basic_mark (flags (mark m value v))))"
proof -
  have ty: "basic_type (flags (set_mark value True m value)) = basic_type (flags (m value))"
    and bo: "as (set_mark value True m value) = as (m value)"
    by (simp_all add: set_mark_def)
  have step: "mark m value = mark_each (set_mark value True m) vs \<and>
      (\<forall>v\<in>set vs. is_pointer v \<longrightarrow> basic_mark (flags (mark m value v)))"
    if "mark_children (set_mark value True m value) = vs" for vs
  proof -
    have eq: "mark m value = mark_each (set_mark value True m) vs"
      using assms that by (simp add: mark.simps)
    have "mark_post (set_mark value True m) (set vs) (mark_each (set_mark value True m) vs)"
      by (rule mark_mark_post)
    then show ?thesis unfolding eq by (auto simp: mark_post_def marked_def)
  qed
  have frame: "mark_children (set_mark value True m value)
      = [parent, parent_environment_frame, func, self] @ environment"
    if "basic_type (flags (m value)) = kTypeFrame"
      "as (m value) = AsFrame parent parent_environment_frame last_active_catchtable func
                           environment self return_address halt_after_return"
    using that ty bo by (simp add: mark_children_def kType_defs)
  have func: "mark_children (set_mark value True m value)
      = [ctx, block] @ (if bound_self_set then [bound_self] else [])"
    if "basic_type (flags (m value)) = kTypeFunction"
      "as (m value) = AsFunction name argc lvarcount ctx block body_address anonymous
                           bound_self_set bound_self container"
    using that ty bo by (simp add: mark_children_def kType_defs)
  show ?thesis using step frame func by blast
qed

text \<open>The frame and the function of the example memory.\<close>

theorem mark_frame_and_function_witness:
  "is_pointer 0x1000 \<and> \<not> basic_mark (flags (mem_ex 0x1000)) \<and>
   basic_type (flags (mem_ex 0x1000)) = kTypeFrame \<and>
   as (mem_ex 0x1000) = AsFrame 0 0 0x2000 0x1040 [VALUE_ENCODE_INTEGER 5, kNull] kNull 0 False \<and>
   mark mem_ex 0x1000 = mark_each (set_mark 0x1000 True mem_ex)
     ([0, 0, 0x1040, kNull] @ [VALUE_ENCODE_INTEGER 5, kNull]) \<and>
   basic_mark (flags (mark mem_ex 0x1000 0x1040)) \<and>
   is_pointer 0x1040 \<and> \<not> basic_mark (flags (mem_ex 0x1040)) \<and>
   basic_type (flags (mem_ex 0x1040)) = kTypeFunction \<and>
   as (mem_ex 0x1040) = AsFunction 0x1C 0 2 0x1000 0 0 False False kNull [(0x2C, 0x2040)] \<and>
   mark mem_ex 0x1040 = mark_each (set_mark 0x1040 True mem_ex) [0x1000, 0] \<and>
   basic_mark (flags (mark mem_ex 0x1040 0x1000))"
proof -
  have a: "is_pointer 0x1000" "\<not> basic_mark (flags (mem_ex 0x1000))"
    "basic_type (flags (mem_ex 0x1000)) = kTypeFrame"
    "as (mem_ex 0x1000) = AsFrame 0 0 0x2000 0x1040 [VALUE_ENCODE_INTEGER 5, kNull] kNull 0 False"
    by (simp_all add: tag_simps mem_ex_def type_simps)
  have b: "is_pointer 0x1040" "\<not> basic_mark (flags (mem_ex 0x1040))"
    "basic_type (flags (mem_ex 0x1040)) = kTypeFunction"
    "as (mem_ex 0x1040) = AsFunction 0x1C 0 2 0x1000 0 0 False False kNull [(0x2C, 0x2040)]"
    by (simp_all add: tag_simps mem_ex_def type_simps)
  from mark_frame_and_function [of "0x1000" mem_ex 0 0 "0x2000" "0x1040"
      "[VALUE_ENCODE_INTEGER 5, kNull]" kNull 0 False, OF a(1,2)] a(3,4)
  have fa: "mark mem_ex 0x1000 = mark_each (set_mark 0x1000 True mem_ex)
     ([0, 0, 0x1040, kNull] @ [VALUE_ENCODE_INTEGER 5, kNull])"
    "basic_mark (flags (mark mem_ex 0x1000 0x1040))"
    using a(1) b(1) by auto
  from mark_frame_and_function [of "0x1040" mem_ex _ _ _ _ _ _ _ _ "0x1C" 0 2 "0x1000" 0 0
      False False kNull "[(0x2C, 0x2040)]", OF b(1,2)] b(3,4)
  have fb: "mark mem_ex 0x1040 = mark_each (set_mark 0x1040 True mem_ex) [0x1000, 0]"
    "basic_mark (flags (mark mem_ex 0x1040 0x1000))"
    using a(1) by auto
  from a b fa fb show ?thesis by blast
qed

text \<open>
  \<^bold>\<open>C8\<close> as stated fails: \<open>mark\<close> on the frame at \<open>0x1000\<close> leaves its last active catch
  table, the cell at \<open>0x2000\<close>, unmarked, and \<open>mark\<close> on the function at \<open>0x1040\<close> leaves
  the object in its container, the cell at \<open>0x2040\<close>, unmarked.
\<close>

theorem mark_skips_catchtable_and_container:
  "as (mem_ex 0x1000) = AsFrame 0 0 0x2000 0x1040 [VALUE_ENCODE_INTEGER 5, kNull] kNull 0 False \<and>
   is_pointer 0x2000 \<and> \<not> basic_mark (flags (mark mem_ex 0x1000 0x2000)) \<and>
   as (mem_ex 0x1040) = AsFunction 0x1C 0 2 0x1000 0 0 False False kNull [(0x2C, 0x2040)] \<and>
   is_pointer 0x2040 \<and> \<not> basic_mark (flags (mark mem_ex 0x1040 0x2040))"
proof -
  have a: "as (mem_ex 0x1000) = AsFrame 0 0 0x2000 0x1040 [VALUE_ENCODE_INTEGER 5, kNull] kNull 0 False"
    "as (mem_ex 0x1040) = AsFunction 0x1C 0 2 0x1000 0 0 False False kNull [(0x2C, 0x2040)]"
    by (simp_all add: mem_ex_def)
  have b: "\<not> basic_mark (flags (mark mem_ex 0x1000 0x2000))" by code_simp
  have c: "\<not> basic_mark (flags (mark mem_ex 0x1040 0x2040))" by code_simp
  from a b c tag_simps(3,4) show ?thesis by blast
qed

lemma mark_unmarked_subset:
  "unmarked (mark m v) \<subseteq> unmarked m" "unmarked (mark_each m vs) \<subseteq> unmarked m"
  using mark_dom_total mark_unmarked_subset_dom by blast+

text \<open>
  \<^bold>\<open>C10\<close>. The recursion of \<open>mark\<close> ends on every memory and every value, and so does
  the loop over any list of values: every argument lies in the accessible part of the call
  relation (\<open>mark_mark_each_dom\<close>). No call clears a mark bit. A call on a value that is
  not a pointer or on a marked cell returns the memory as it is; any other call leaves its
  cell marked and returns with fewer unmarked cells than it started with. So a cell is
  traversed at most once until the sweep clears its mark bit.
\<close>

theorem mark_terminates:
  "mark_mark_each_dom (Inl (m, value)) \<and> mark_mark_each_dom (Inr (m, values)) \<and>
   marked m \<subseteq> marked (mark m value) \<and>
   (if \<not> is_pointer value \<or> basic_mark (flags (m value)) then mark m value = m
    else value \<in> marked (mark m value) \<and>
         card (unmarked (mark m value)) < card (unmarked m))"
proof -
  have dom: "mark_mark_each_dom (Inl (m, value))" "mark_mark_each_dom (Inr (m, values))"
    using mark_dom_total by blast+
  have keep: "marked m \<subseteq> marked (mark m value)"
    by (rule marks_only_marked) (rule mark_marks_only)
  have "card (unmarked (mark m value)) < card (unmarked m)"
    if "is_pointer value" "\<not> basic_mark (flags (m value))"
  proof -
    have "mark m value = mark_each (set_mark value True m) (mark_children (set_mark value True m value))"
      using that by (simp add: mark.simps)
    then have "unmarked (mark m value) \<subseteq> unmarked (set_mark value True m)"
      using mark_unmarked_subset(2) by simp
    then have "card (unmarked (mark m value)) \<le> card (unmarked (set_mark value True m))"
      by (intro card_mono) simp_all
    also have "\<dots> < card (unmarked m)" using that(2) by (rule card_unmarked_set_mark)
    finally show ?thesis .
  qed
  moreover have "value \<in> marked (mark m value)" if "is_pointer value"
    using mark_mark_post(1) [of m "value"] that by (simp add: mark_post_def)
  moreover have "mark m value = m" if "\<not> is_pointer value \<or> basic_mark (flags (m value))"
    using that by (auto simp add: mark.simps)
  ultimately show ?thesis using dom keep by auto
qed

text \<open>
  A cycle: the frame at \<open>0x1000\<close> has the function at \<open>0x1040\<close>, whose context is the
  frame. \<open>mark\<close> on the frame marks both.
\<close>

theorem mark_terminates_witness:
  "mark_mark_each_dom (Inl (mem_ex, 0x1000)) \<and>
   is_pointer 0x1000 \<and> \<not> basic_mark (flags (mem_ex 0x1000)) \<and>
   card (unmarked (mark mem_ex 0x1000)) < card (unmarked mem_ex) \<and>
   mark_children (mem_ex 0x1000) = [0, 0, 0x1040, kNull, VALUE_ENCODE_INTEGER 5, kNull] \<and>
   mark_children (mem_ex 0x1040) = [0x1000, 0] \<and>
   0x1000 \<in> marked (mark mem_ex 0x1000) \<and>
   basic_mark (flags (mark mem_ex 0x1000 0x1040))"
proof -
  have a: "is_pointer 0x1000" "\<not> basic_mark (flags (mem_ex 0x1000))"
    by (simp_all add: tag_simps mem_ex_def type_simps)
  have b: "basic_mark (flags (mark mem_ex 0x1000 0x1040))"
    by code_simp
  from mark_terminates [of mem_ex "0x1000" "[]"] a b children_ex(1,2) show ?thesis by simp
qed

section \<open>The claim about \<open>allocate\<close>\<close>








section \<open>Facts about the value encoding\<close>

lemma int_bit62:
  fixes k :: int
  assumes "- (2 ^ 62) \<le> k" and "k < 2 ^ 62"
  shows "bit k 62 = (k < 0)"
proof (cases "k < 0")
  case True
  have "(k + 2 ^ 62) div 2 ^ 62 = 0"
    using assms True by (intro div_pos_pos_trivial) simp_all
  then have "k div 2 ^ 62 = - 1" by simp
  then show ?thesis using True by (simp add: bit_iff_odd)
next
  case False
  then have "k div 2 ^ 62 = 0"
    using assms by (intro div_pos_pos_trivial) simp_all
  then show ?thesis using False by (simp add: bit_iff_odd)
qed

lemma top_bits_agree:
  fixes i :: "64 word"
  assumes "- (2 ^ 62) \<le> sint i" and "sint i < 2 ^ 62"
  shows "bit i 62 = bit i 63"
proof -
  have "bit i 63 = (sint i < 0)" using bit_last_iff [of i] by simp
  moreover have "bit i 62 = bit (sint i) 62" by (simp add: bit_sint_iff)
  ultimately show ?thesis using int_bit62 [OF assms] by simp
qed

lemma bit_VALUE_ENCODE_INTEGER:
  "bit (VALUE_ENCODE_INTEGER i) n = (n = 0 \<or> (n < 64 \<and> bit i (n - 1)))"
proof (cases n)
  case 0
  then show ?thesis
    by (simp add: VALUE_ENCODE_INTEGER_def kIntegerFlag_def bit_or_iff)
next
  case (Suc m)
  have "bit (push_bit 1 i OR 1) (Suc m) = (m < 63 \<and> bit i m)"
    apply (simp only: bit_or_iff bit_push_bit_iff bit_1_iff)
    apply (auto dest: bit_imp_le_length simp: possible_bit_word)
    done
  then show ?thesis using Suc
    by (auto simp add: VALUE_ENCODE_INTEGER_def kIntegerFlag_def)
qed

lemma decode_encode:
  assumes "- (2 ^ 62) \<le> sint i" and "sint i < 2 ^ 62"
  shows "VALUE_DECODE_INTEGER (VALUE_ENCODE_INTEGER i) = i"
proof (rule bit_word_eqI)
  fix n assume n: "n < LENGTH(64)"
  show "bit (VALUE_DECODE_INTEGER (VALUE_ENCODE_INTEGER i)) n = bit i n"
  proof (cases "n = 63")
    case True
    then show ?thesis using top_bits_agree [OF assms]
      by (simp add: VALUE_DECODE_INTEGER_def bit_signed_drop_bit_iff bit_VALUE_ENCODE_INTEGER)
  next
    case False
    with n have "n < 63" by simp
    then show ?thesis
      by (simp add: VALUE_DECODE_INTEGER_def bit_signed_drop_bit_iff bit_VALUE_ENCODE_INTEGER)
  qed
qed

text \<open>
  \<^bold>\<open>C2\<close>. For every integer \<open>i\<close> with \<open>-2^62 \<le> i < 2^62\<close>, decoding the encoding of
  \<open>i\<close> gives \<open>i\<close> back: \<open>VALUE_DECODE_INTEGER (VALUE_ENCODE_INTEGER i) = i\<close>.
\<close>

theorem integer_roundtrip:
  assumes "- (2 ^ 62) \<le> sint i" and "sint i < 2 ^ 62"
  shows "VALUE_DECODE_INTEGER (VALUE_ENCODE_INTEGER i) = i"
  using assms by (rule decode_encode)

theorem integer_roundtrip_witness:
  "- (2 ^ 62) \<le> sint (- 5 :: 64 word) \<and> sint (- 5 :: 64 word) < 2 ^ 62 \<and>
   VALUE_DECODE_INTEGER (VALUE_ENCODE_INTEGER (- 5)) = - 5"
proof -
  have lo: "- (2 ^ 62) \<le> sint (- 5 :: 64 word)" by simp
  have hi: "sint (- 5 :: 64 word) < 2 ^ 62" by simp
  show ?thesis using lo hi integer_roundtrip [OF lo hi] by simp
qed

lemmas tag_defs = kPointerMask_def kPointerFlag_def kIntegerMask_def kIntegerFlag_def
  kFloatMask_def kFloatFlag_def kSymbolMask_def kSymbolFlag_def kFalse_def kTrue_def kNull_def

lemma and_narrow:
  fixes v :: VALUE
  assumes "v AND a = b"
  shows "v AND (a AND c) = b AND c"
  using assms by (metis and.assoc)

lemma ifloat_low: "is_ifloat v \<Longrightarrow> v AND 1 = 0 \<and> v AND 3 = 2"
  unfolding is_ifloat_def tag_defs
  using and_narrow [of v 3 2 1] by auto

lemma symbol_low: "is_symbol v \<Longrightarrow> v AND 1 = 0 \<and> v AND 3 = 0 \<and> v AND 7 = 4"
  unfolding is_symbol_def tag_defs
  using and_narrow [of v 15 12 1] and_narrow [of v 15 12 3] and_narrow [of v 15 12 7] by auto

lemma pointer_low:
  "is_pointer v \<Longrightarrow> v AND 1 = 0 \<and> v AND 3 = 0 \<and> v AND 7 = 0 \<and> v \<noteq> 0 \<and> v \<noteq> 8"
  unfolding is_pointer_def is_null_def is_false_def tag_defs
  using and_narrow [of v 7 0 1] and_narrow [of v 7 0 3] by auto

lemma at_most_one_kind:
  "length (filter (\<lambda>p. p v)
     [is_integer, is_ifloat, is_symbol, is_boolean, is_null, is_pointer]) \<le> 1"
proof -
  consider "is_integer v" | "is_ifloat v" | "is_symbol v" | "is_boolean v" | "is_null v"
    | "is_pointer v"
    | "\<not> is_integer v \<and> \<not> is_ifloat v \<and> \<not> is_symbol v \<and> \<not> is_boolean v \<and> \<not> is_null v \<and>
       \<not> is_pointer v"
    by blast
  then show ?thesis
  proof cases
    case 1
    then have "v AND 1 = 1" by (simp add: is_integer_def tag_defs)
    then have "\<not> is_ifloat v" "\<not> is_symbol v" "\<not> is_pointer v" "\<not> is_boolean v" "\<not> is_null v"
      using ifloat_low symbol_low pointer_low
      by (auto simp: is_boolean_def is_null_def tag_defs)
    then show ?thesis by simp
  next
    case 2
    then have "\<not> is_integer v" "\<not> is_symbol v" "\<not> is_pointer v" "\<not> is_boolean v" "\<not> is_null v"
      using ifloat_low [OF 2] symbol_low pointer_low
      by (auto simp: is_integer_def is_boolean_def is_null_def tag_defs)
    then show ?thesis by simp
  next
    case 3
    then have "v AND 15 = 12" by (simp add: is_symbol_def tag_defs)
    then have "\<not> is_pointer v" "\<not> is_boolean v" "\<not> is_null v" "\<not> is_integer v" "\<not> is_ifloat v"
      using symbol_low [OF 3] pointer_low
      by (auto simp: is_boolean_def is_null_def is_integer_def is_ifloat_def tag_defs)
    then show ?thesis by simp
  next
    case 4
    then have "v = 0 \<or> v = 20" by (simp add: is_boolean_def tag_defs)
    then have "\<not> is_pointer v" "\<not> is_null v" "\<not> is_integer v" "\<not> is_ifloat v" "\<not> is_symbol v"
      by (auto simp: is_pointer_def is_symbol_def is_false_def is_null_def is_integer_def
          is_ifloat_def tag_defs)
    then show ?thesis by simp
  next
    case 5
    then have "v = 8" by (simp add: is_null_def tag_defs)
    then have "\<not> is_pointer v" "\<not> is_boolean v" "\<not> is_integer v" "\<not> is_ifloat v" "\<not> is_symbol v"
      by (auto simp: is_pointer_def is_symbol_def is_false_def is_null_def is_integer_def
          is_ifloat_def is_boolean_def tag_defs)
    then show ?thesis by simp
  next
    case 6
    then have "\<not> is_null v" "\<not> is_boolean v" "\<not> is_integer v" "\<not> is_ifloat v" "\<not> is_symbol v"
      using pointer_low [OF 6] symbol_low
      by (auto simp: is_null_def is_boolean_def is_integer_def is_ifloat_def tag_defs)
    then show ?thesis by simp
  next
    case 7
    then show ?thesis by simp
  qed
qed

lemma is_integer_VALUE_ENCODE_INTEGER: "is_integer (VALUE_ENCODE_INTEGER i)"
  unfolding is_integer_def kIntegerMask_def kIntegerFlag_def
  by (rule bit_word_eqI) (auto simp add: bit_and_iff bit_VALUE_ENCODE_INTEGER bit_1_iff)

text \<open>
  \<^bold>\<open>C9\<close>. For every 64-bit value at most one of \<open>is_integer\<close>, \<open>is_ifloat\<close>,
  \<open>is_symbol\<close>, \<open>is_boolean\<close>, \<open>is_null\<close> and \<open>is_pointer\<close> holds. An address whose
  low three bits are zero and which is neither the encoding of false nor that of null (a
  pointer to an 8-byte aligned cell) is a pointer and nothing else, and the encoding
  \<open>(i << 1) | 1\<close> of an integer is an integer and nothing else.
\<close>

theorem encodings_exclusive:
  "length (filter (\<lambda>p. p v)
     [is_integer, is_ifloat, is_symbol, is_boolean, is_null, is_pointer]) \<le> 1 \<and>
   (p AND kPointerMask = 0 \<and> p \<noteq> kFalse \<and> p \<noteq> kNull \<longrightarrow>
      is_pointer p \<and> \<not> is_integer p \<and> \<not> is_ifloat p \<and> \<not> is_symbol p \<and>
      \<not> is_boolean p \<and> \<not> is_null p) \<and>
   is_integer (VALUE_ENCODE_INTEGER i) \<and> \<not> is_ifloat (VALUE_ENCODE_INTEGER i) \<and>
   \<not> is_symbol (VALUE_ENCODE_INTEGER i) \<and> \<not> is_boolean (VALUE_ENCODE_INTEGER i) \<and>
   \<not> is_null (VALUE_ENCODE_INTEGER i) \<and> \<not> is_pointer (VALUE_ENCODE_INTEGER i)"
proof -
  have excl_int: "\<not> is_ifloat w \<and> \<not> is_symbol w \<and> \<not> is_boolean w \<and> \<not> is_null w \<and> \<not> is_pointer w"
    if "is_integer w" for w
    using at_most_one_kind [of w] that by (auto split: if_splits)
  have excl_ptr: "\<not> is_integer w \<and> \<not> is_ifloat w \<and> \<not> is_symbol w \<and> \<not> is_boolean w \<and> \<not> is_null w"
    if "is_pointer w" for w
    using at_most_one_kind [of w] that by (auto split: if_splits)
  have ptr: "is_pointer p" if "p AND kPointerMask = 0" "p \<noteq> kFalse" "p \<noteq> kNull"
    using that by (simp add: is_pointer_def is_null_def is_false_def kPointerFlag_def)
  show ?thesis
    using at_most_one_kind [of v] excl_int [OF is_integer_VALUE_ENCODE_INTEGER] excl_ptr ptr
      is_integer_VALUE_ENCODE_INTEGER
    by blast
qed

text \<open>The address \<open>0x1000\<close> and the encoding of the integer 5.\<close>

theorem encodings_exclusive_witness:
  "(0x1000 :: VALUE) AND kPointerMask = 0 \<and> 0x1000 \<noteq> kFalse \<and> 0x1000 \<noteq> kNull \<and>
   is_pointer 0x1000 \<and> \<not> is_integer 0x1000 \<and> \<not> is_symbol 0x1000 \<and>
   is_integer (VALUE_ENCODE_INTEGER 5) \<and> \<not> is_pointer (VALUE_ENCODE_INTEGER 5)"
proof -
  have h: "(0x1000 :: VALUE) AND kPointerMask = 0" "(0x1000 :: VALUE) \<noteq> kFalse"
    "(0x1000 :: VALUE) \<noteq> kNull"
    by (simp_all add: tag_defs)
  from encodings_exclusive [of kTrue "0x1000" 5] h show ?thesis by blast
qed

section \<open>The claims about the operators\<close>

lemma bit_length_2: "bit_length 2 = 2"
  by (simp add: bit_length.simps)

lemma int64_to_double_2: "int64_to_double 2 = 0x4000000000000000"
  by (simp add: int64_to_double_def double_round_def bit_length.simps double_pack_def Let_def)

lemma int64_to_double_3: "int64_to_double 3 = 0x4008000000000000"
  by (simp add: int64_to_double_def double_round_def bit_length.simps double_pack_def Let_def)

lemma double_parts_2_3:
  "double_exponent 0x4000000000000000 = 1024" "double_fraction 0x4000000000000000 = 0"
  "double_exponent 0x4008000000000000 = 1024" "double_fraction 0x4008000000000000 = 2 ^ 51"
  "\<not> double_sign 0x4000000000000000" "\<not> double_sign 0x4008000000000000"
  by (simp_all add: double_exponent_def double_fraction_def double_sign_def)

lemma bit_length_sum: "bit_length 11258999068426240 = 54"
  by (simp add: bit_length.simps)

lemma double_add_2_3: "double_add 0x4000000000000000 0x4008000000000000 = 0x4014000000000000"
  by (simp add: double_add_def double_is_nan_def double_is_inf_def double_parts_2_3 double_exp_def
      double_sig_def Let_def double_round_def bit_length_sum double_pack_def)

lemma not_numeric_null_false: "\<not> is_numeric m kNull" "\<not> is_numeric m kFalse"
  by (simp_all add: is_numeric_def is_integer_def is_ifloat_def is_special_def is_pointer_def
      is_null_def is_false_def tag_defs)

text \<open>
  \<^bold>\<open>C5\<close>. \<open>truthyness\<close> is false exactly for the false value, the null value and a
  numeric value whose double is zero; it is true for every other value.
\<close>

theorem truthyness_false_iff:
  "(truthyness m value = False) =
     (is_false value \<or> is_null value \<or>
      (is_numeric m value \<and> \<not> double_ne_zero (VM_numeric_value m value)))"
proof (cases "is_numeric m value")
  case True
  then have "\<not> is_null value" "\<not> is_false value"
    using not_numeric_null_false [of m] by (auto simp: is_null_def is_false_def)
  with True show ?thesis by (simp add: truthyness_def)
next
  case False
  then show ?thesis by (auto simp add: truthyness_def)
qed

lemma decode_small:
  "VALUE_DECODE_INTEGER (VALUE_ENCODE_INTEGER 0) = 0"
  "VALUE_DECODE_INTEGER (VALUE_ENCODE_INTEGER 2) = 2"
  "VALUE_DECODE_INTEGER (VALUE_ENCODE_INTEGER 3) = 3"
  "VALUE_DECODE_INTEGER (VALUE_ENCODE_INTEGER 5) = 5"
  by (rule decode_encode; simp)+

lemma numeric_value_small:
  "VM_numeric_value m (VALUE_ENCODE_INTEGER 0) = 0"
  "VM_numeric_value m (VALUE_ENCODE_INTEGER 2) = 0x4000000000000000"
  "VM_numeric_value m (VALUE_ENCODE_INTEGER 3) = 0x4008000000000000"
  "VM_numeric_value m (VALUE_ENCODE_INTEGER 5) = 0x4014000000000000"
  by (simp_all add: VM_numeric_value_def is_integer_VALUE_ENCODE_INTEGER decode_small int64_to_double_def
      double_round_def bit_length.simps double_pack_def Let_def)

lemma ne_zero_small:
  "\<not> double_ne_zero 0" "double_ne_zero 0x4014000000000000"
  by (simp_all add: double_ne_zero_def double_is_nan_def double_exponent_def
      double_fraction_def)

text \<open>The integers 0 and 5, null, false and true.\<close>

theorem truthyness_false_iff_witness:
  "truthyness zeroed (VALUE_ENCODE_INTEGER 0) = False \<and>
   is_numeric zeroed (VALUE_ENCODE_INTEGER 0) \<and>
   \<not> double_ne_zero (VM_numeric_value zeroed (VALUE_ENCODE_INTEGER 0)) \<and>
   truthyness zeroed (VALUE_ENCODE_INTEGER 5) \<and>
   truthyness zeroed kNull = False \<and> truthyness zeroed kFalse = False \<and>
   truthyness zeroed kTrue"
proof -
  have n: "is_numeric zeroed (VALUE_ENCODE_INTEGER 0)" "is_numeric zeroed (VALUE_ENCODE_INTEGER 5)"
    by (simp_all add: is_numeric_def is_integer_VALUE_ENCODE_INTEGER)
  have t: "\<not> is_numeric zeroed kTrue" "\<not> is_false kTrue" "\<not> is_null kTrue"
    "\<not> is_false (VALUE_ENCODE_INTEGER 5)" "\<not> is_null (VALUE_ENCODE_INTEGER 5)"
    by (simp_all add: is_numeric_def is_integer_def is_ifloat_def is_special_def is_pointer_def
      is_null_def is_false_def tag_defs zeroed_def basic_type_def kType_defs
      VALUE_ENCODE_INTEGER_def)
  have f: "is_false kFalse" "is_null kNull" by (simp_all add: is_false_def is_null_def)
  from truthyness_false_iff [of zeroed "VALUE_ENCODE_INTEGER 0"]
    truthyness_false_iff [of zeroed "VALUE_ENCODE_INTEGER 5"]
    truthyness_false_iff [of zeroed kNull] truthyness_false_iff [of zeroed kFalse]
    truthyness_false_iff [of zeroed kTrue] n t f
  show ?thesis by (simp add: numeric_value_small ne_zero_small)
qed

lemma VM_type_enc: "VM_type m (VALUE_ENCODE_INTEGER i) = kTypeNumeric"
  by (simp add: VM_type_def is_numeric_def is_integer_VALUE_ENCODE_INTEGER)

lemma create_float_5:
  "VM_create_float env vm mm 0x4014000000000000 = (0x4014000000000002, mm)"
  by (simp add: VM_create_float_def tag_defs)

text \<open>
  \<^bold>\<open>C4\<close>, amended. Adding the integer values 2 and 3 yields what \<open>create_float\<close> makes of
  the double sum of 2.0 and 3.0, which is 5.0: an immediate float, not an integer value,
  with the same numeric value as the integer 5.
\<close>

theorem add_2_3_is_float:
  "add env vm mm (VALUE_ENCODE_INTEGER 2) (VALUE_ENCODE_INTEGER 3)
     = VM_create_float env vm mm (double_add (int64_to_double 2) (int64_to_double 3)) \<and>
   double_add (int64_to_double 2) (int64_to_double 3) = 0x4014000000000000 \<and>
   fst (add env vm mm (VALUE_ENCODE_INTEGER 2) (VALUE_ENCODE_INTEGER 3)) = 0x4014000000000002 \<and>
   is_ifloat (fst (add env vm mm (VALUE_ENCODE_INTEGER 2) (VALUE_ENCODE_INTEGER 3))) \<and>
   \<not> is_integer (fst (add env vm mm (VALUE_ENCODE_INTEGER 2) (VALUE_ENCODE_INTEGER 3))) \<and>
   VM_numeric_value (cells mm) (fst (add env vm mm (VALUE_ENCODE_INTEGER 2) (VALUE_ENCODE_INTEGER 3)))
     = VM_numeric_value (cells mm) (VALUE_ENCODE_INTEGER 5)"
proof -
  have a: "add env vm mm (VALUE_ENCODE_INTEGER 2) (VALUE_ENCODE_INTEGER 3)
     = VM_create_float env vm mm (double_add (int64_to_double 2) (int64_to_double 3))"
    by (simp add: add_def VM_type_enc VM_numeric_value_def is_integer_VALUE_ENCODE_INTEGER decode_small Let_def)
  have b: "double_add (int64_to_double 2) (int64_to_double 3) = 0x4014000000000000"
    by (simp add: int64_to_double_2 int64_to_double_3 double_add_2_3)
  have c: "fst (add env vm mm (VALUE_ENCODE_INTEGER 2) (VALUE_ENCODE_INTEGER 3)) = 0x4014000000000002"
    by (simp add: a b create_float_5)
  have d: "is_ifloat 0x4014000000000002" "\<not> is_integer 0x4014000000000002"
    by (simp_all add: is_ifloat_def is_integer_def tag_defs)
  have e: "VM_numeric_value (cells mm) 0x4014000000000002 = 0x4014000000000000"
    using d by (simp add: VM_numeric_value_def tag_defs)
  from a b c d e show ?thesis by (simp add: numeric_value_small)
qed

text \<open>
  \<^bold>\<open>C4\<close> as stated fails: the sum of the integer values 2 and 3 is not the integer value
  5, and not an integer value at all.
\<close>

theorem add_2_3_not_integer:
  "fst (add env_ex vm_ex mm_ex (VALUE_ENCODE_INTEGER 2) (VALUE_ENCODE_INTEGER 3))
     \<noteq> VALUE_ENCODE_INTEGER 5 \<and>
   \<not> is_integer (fst (add env_ex vm_ex mm_ex (VALUE_ENCODE_INTEGER 2) (VALUE_ENCODE_INTEGER 3)))"
proof -
  have a: "add env_ex vm_ex mm_ex (VALUE_ENCODE_INTEGER 2) (VALUE_ENCODE_INTEGER 3)
     = VM_create_float env_ex vm_ex mm_ex (double_add (int64_to_double 2) (int64_to_double 3))"
    by (simp add: add_def VM_type_enc VM_numeric_value_def is_integer_VALUE_ENCODE_INTEGER decode_small Let_def)
  have c: "fst (add env_ex vm_ex mm_ex (VALUE_ENCODE_INTEGER 2) (VALUE_ENCODE_INTEGER 3))
     = 0x4014000000000002"
    by (simp add: a int64_to_double_2 int64_to_double_3 double_add_2_3 create_float_5)
  have d: "\<not> is_integer 0x4014000000000002" "(0x4014000000000002 :: VALUE) \<noteq> VALUE_ENCODE_INTEGER 5"
    by (simp_all add: is_integer_def tag_defs VALUE_ENCODE_INTEGER_def)
  from c d show ?thesis by simp
qed




lemma fst_allocate: "fst (allocate env vm mm) = free_cell mm"
  by (simp add: allocate_def Let_def)

lemma basic_type_kTypeFloat [simp]: "basic_type kTypeFloat = kTypeFloat"
  by (simp add: basic_type_def kFlagType_def kTypeFloat_def)







lemma double_add_boxed: "double_add 0x3FF0000000000000 0x3CB0000000000000 = 0x3FF0000000000001"
proof -
  have p: "double_exponent 0x3FF0000000000000 = 1023" "double_fraction 0x3FF0000000000000 = 0"
    "double_exponent 0x3CB0000000000000 = 971" "double_fraction 0x3CB0000000000000 = 0"
    "\<not> double_sign 0x3FF0000000000000" "\<not> double_sign 0x3CB0000000000000"
    by (simp_all add: double_exponent_def double_fraction_def double_sign_def)
  have b: "bit_length (2 ^ 52 * 2 ^ 52 + 2 ^ 52) = 105"
    by (simp add: bit_length.simps)
  show ?thesis
    using b
    by (simp add: double_add_def double_is_nan_def double_is_inf_def p double_exp_def
      double_sig_def Let_def double_round_def double_pack_def)
qed


text \<open>
  A sum that no immediate float holds, \<open>1.0 + 2^-52\<close>, goes into the cell at the head of
  the free list.
\<close>

lemma add_boxes_sum:
  "fst (add env vm mm 0x3FF0000000000002 0x3CB0000000000002) = free_cell mm \<and>
   cells (snd (add env vm mm 0x3FF0000000000002 0x3CB0000000000002)) (free_cell mm)
     = \<lparr>flags = kTypeFloat, as = AsFloat 0x3FF0000000000001\<rparr>"
proof -
  have f: "is_ifloat 0x3FF0000000000002" "is_ifloat 0x3CB0000000000002"
    "\<not> is_integer 0x3FF0000000000002" "\<not> is_integer 0x3CB0000000000002"
    by (simp_all add: is_ifloat_def is_integer_def tag_defs)
  then have t: "VM_type (cells mm) 0x3FF0000000000002 = kTypeNumeric"
    "VM_type (cells mm) 0x3CB0000000000002 = kTypeNumeric"
    by (simp_all add: VM_type_def is_numeric_def)
  have v: "VM_numeric_value (cells mm) 0x3FF0000000000002 = 0x3FF0000000000000"
    "VM_numeric_value (cells mm) 0x3CB0000000000002 = 0x3CB0000000000000"
    using f by (simp_all add: VM_numeric_value_def tag_defs)
  have a: "add env vm mm 0x3FF0000000000002 0x3CB0000000000002
      = VM_create_float env vm mm 0x3FF0000000000001"
    by (simp add: add_def t v double_add_boxed Let_def)
  obtain cell mm' where al: "allocate env vm mm = (cell, mm')" by (cases "allocate env vm mm")
  then have "cell = free_cell mm" using fst_allocate [of env vm mm] by simp
  with al show ?thesis by (simp add: a VM_create_float_def tag_defs)
qed

end
